theory Spec2Isabelle
  imports Main "HOL-Library.Word"
begin

section \<open>Process outcomes\<close>

text \<open>
  The compiler stops at the first error: \<^verbatim>\<open>log_source_err\<close> and \<^verbatim>\<open>log_internal_err\<close> print to
  \<^verbatim>\<open>stderr\<close> and call \<^verbatim>\<open>exit(EXIT_FAILURE)\<close>. A function of the model that can stop the process
  returns \<open>failure + 'a\<close>. The two output streams of the process are carried in a record, so
  that what a diagnostic writes (and what it leaves alone) can be stated.

  \<^item> \<open>Exited status out\<close>: the process called \<^verbatim>\<open>exit(status)\<close>; \<open>out\<close> holds the streams then.
  \<^item> \<open>Internal msg\<close>: \<^verbatim>\<open>log_internal_err(msg)\<close>, which reports on \<^verbatim>\<open>stderr\<close> and exits with
    \<^verbatim>\<open>EXIT_FAILURE\<close>.
  \<^item> \<open>OutOfBounds\<close>: a read outside the source buffer, undefined in C.
  \<^item> \<open>Diverged\<close>: a loop that never ends.
  \<^item> \<open>OutOfFuel\<close>: the recursion bound of the model's parser ran out.
\<close>

record streams =
  err_stream :: string
  artifact_stream :: string

datatype failure =
    Exited int streams
  | Internal string
  | OutOfBounds
  | Diverged
  | OutOfFuel

definition EXIT_FAILURE :: int where
  "EXIT_FAILURE = 1"

section \<open>helper.c: source positions\<close>

text \<open>
  Pointers into the source text are addresses (\<open>int\<close>); \<open>NULL\<close> is address 0. The source
  buffer is the only memory the front end reads: a block of bytes at \<open>buf_start\<close>. A read
  at any other address has no value.

  \<^verbatim>\<open>typedef struct { const uint8_t *start; size_t sz; } SourcePosition;\<close>
\<close>

record buffer =
  buf_start :: int
  buf_bytes :: string

definition peek_byte :: "buffer \<Rightarrow> int \<Rightarrow> char option" where
  "peek_byte m p =
     (if buf_start m \<le> p \<and> p < buf_start m + int (length (buf_bytes m))
      then Some (buf_bytes m ! nat (p - buf_start m)) else None)"

record SourcePosition =
  pos_start :: int
  pos_sz :: "64 word"

definition combine_pos :: "SourcePosition \<Rightarrow> SourcePosition \<Rightarrow> SourcePosition" where
  "combine_pos pos1 pos2 =
     \<lparr>pos_start = pos_start pos1,
      pos_sz = word_of_int (pos_start pos2 - pos_start pos1) + pos_sz pos2\<rparr>"

definition make_pos :: "int \<Rightarrow> 64 word \<Rightarrow> SourcePosition" where
  "make_pos buf sz = \<lparr>pos_start = buf, pos_sz = sz\<rparr>"

section \<open>helper.c: the SSA value counter\<close>

text \<open>
  \<^verbatim>\<open>int64_t next_vn() { static int64_t reg = 1; return reg++; }\<close>

  The static counter is the state; it is a signed 64-bit integer, read with \<open>sint\<close>.
  Incrementing \<open>INT64_MAX\<close> is undefined in C, so that call has no result (\<open>None\<close>).
  A successful call returns the old counter and leaves the incremented one behind.
\<close>

definition INT64_MAX :: int where
  "INT64_MAX = 2 ^ 63 - 1"

definition next_vn_init :: "64 word" where
  "next_vn_init = 1"

definition next_vn :: "64 word \<Rightarrow> (64 word \<times> 64 word) option" where
  "next_vn reg = (if sint reg = INT64_MAX then None else Some (reg, reg + 1))"

text \<open>\<open>n\<close> successive calls; the returned values are listed in call order.\<close>

fun next_vn_calls :: "nat \<Rightarrow> 64 word \<Rightarrow> (64 word list \<times> 64 word) option" where
  "next_vn_calls 0 reg = Some ([], reg)"
| "next_vn_calls (Suc n) reg =
     (case next_vn reg of
        None \<Rightarrow> None
      | Some (v, reg') \<Rightarrow>
          (case next_vn_calls n reg' of
             None \<Rightarrow> None
           | Some (vs, reg'') \<Rightarrow> Some (v # vs, reg'')))"

section \<open>helper.c: source-attributed diagnostics\<close>

text \<open>
  \<^verbatim>\<open>log_source_err(fmt, base, pos, ...)\<close> prints \<^verbatim>\<open>error: <message>\<close>, then walks back from
  \<^verbatim>\<open>pos.start\<close> to the start of the line, prints the line after \<^verbatim>\<open> | \<close> and exits:

  \<^verbatim>\<open>while ((pos.start--) != base && (*pos.start) != '\n') {}\<close>
  \<^verbatim>\<open>pos.start++;\<close>
  \<^verbatim>\<open>for (; (*pos.start) != '\n'; pos.start++) putc(*pos.start, stderr);\<close>

  \<open>scan_back\<close> is the first loop and returns \<^verbatim>\<open>pos.start\<close> as the loop leaves it: the test
  compares the old pointer with \<open>base\<close>, the decrement happens either way, and the byte at
  the new pointer is read only when the old one was not \<open>base\<close>. \<open>scan_line\<close> is the second
  loop and returns the bytes it prints. Neither loop stops at the end of the buffer. The
  message \<open>msg\<close> is the text \<^verbatim>\<open>vfprintf\<close> makes of \<^verbatim>\<open>fmt\<close> and its arguments.
\<close>

definition RED :: string where
  "RED = CHR 0x1B # ''[0;31m''"

definition BLUE :: string where
  "BLUE = CHR 0x1B # ''[0;34m''"

definition WHITE_UNDERLINE :: string where
  "WHITE_UNDERLINE = CHR 0x1B # ''[1;37m''"

definition RESET :: string where
  "RESET = CHR 0x1B # ''[0m''"

definition newline :: char where
  "newline = CHR 0x0A"

function scan_back :: "buffer \<Rightarrow> int \<Rightarrow> int \<Rightarrow> failure + int" where
  "scan_back m base p =
     (if p = base then Inr (p - 1)
      else (case peek_byte m (p - 1) of
              None \<Rightarrow> Inl OutOfBounds
            | Some c \<Rightarrow> if c = newline then Inr (p - 1) else scan_back m base (p - 1)))"
  by pat_completeness auto
termination
  by (relation "measure (\<lambda>(m, base, p). nat (p - buf_start m))")
     (auto simp: peek_byte_def split: if_splits)

function scan_line :: "buffer \<Rightarrow> int \<Rightarrow> failure + string" where
  "scan_line m p =
     (case peek_byte m p of
        None \<Rightarrow> Inl OutOfBounds
      | Some c \<Rightarrow>
          if c = newline then Inr []
          else (case scan_line m (p + 1) of
                  Inl e \<Rightarrow> Inl e
                | Inr cs \<Rightarrow> Inr (c # cs)))"
  by pat_completeness auto
termination
  by (relation "measure (\<lambda>(m, p). nat (buf_start m + int (length (buf_bytes m)) - p))")
     (auto simp: peek_byte_def split: if_splits)

definition log_source_err :: "string \<Rightarrow> buffer \<Rightarrow> int \<Rightarrow> SourcePosition \<Rightarrow> streams \<Rightarrow> failure" where
  "log_source_err msg m base pos out =
     (case scan_back m base (pos_start pos) of
        Inl e \<Rightarrow> e
      | Inr p \<Rightarrow>
          (case scan_line m (p + 1) of
             Inl e \<Rightarrow> e
           | Inr line \<Rightarrow>
               Exited EXIT_FAILURE
                 (out\<lparr>err_stream := err_stream out @ RED @ ''error'' @ RESET @ '': '' @ msg
                         @ [newline] @ '' | '' @ WHITE_UNDERLINE @ line @ RESET @ [newline]\<rparr>)))"

section \<open>helper.c: the arena\<close>

text \<open>
  \<^verbatim>\<open>typedef struct { uint8_t *base; size_t size; size_t alloc; } MemPool;\<close>

  \<open>size_t\<close> and the pointers of the arena are 64-bit words, so every sum wraps as in C.
  Two more fields give the kernel's side of the mapping: \<open>pool_mapped\<close> says whether
  the \<^verbatim>\<open>mmap\<close> of \<^verbatim>\<open>POOL_MAX_SZ\<close> bytes at \<open>pool_base\<close> exists, and \<open>pool_rw\<close> is the set of offsets
  that \<^verbatim>\<open>mprotect\<close> has made readable and writable. The results of \<^verbatim>\<open>mmap\<close>, of the first
  \<^verbatim>\<open>mprotect\<close> and of \<^verbatim>\<open>munmap\<close> are parameters. \<^verbatim>\<open>mempool_alloc\<close> does not look at the result
  of its \<^verbatim>\<open>mprotect\<close>; the model takes that call to succeed.
\<close>

definition POOL_MAX_SZ :: "64 word" where
  "POOL_MAX_SZ = 4294967296"

definition POOL_CHUNK_SZ :: "64 word" where
  "POOL_CHUNK_SZ = 4096"

definition NULL :: "64 word" where
  "NULL = 0"

record MemPool =
  pool_base :: "64 word"
  pool_size :: "64 word"
  pool_alloc :: "64 word"
  pool_mapped :: bool
  pool_rw :: "nat set"

definition mempool_init :: "64 word option \<Rightarrow> bool \<Rightarrow> failure + MemPool" where
  "mempool_init mmap_result mprotect_ok =
     (case mmap_result of
        None \<Rightarrow> Inl (Internal ''unable to open mmap pool'')
      | Some b \<Rightarrow>
          if \<not> mprotect_ok then Inl (Internal ''unable to block out memory in pool'')
          else Inr \<lparr>pool_base = b, pool_size = 0, pool_alloc = POOL_CHUNK_SZ,
                    pool_mapped = True, pool_rw = {0 ..< unat POOL_CHUNK_SZ}\<rparr>)"

definition mempool_deinit :: "bool \<Rightarrow> MemPool \<Rightarrow> failure + MemPool" where
  "mempool_deinit munmap_ok pool =
     (if \<not> munmap_ok then Inl (Internal ''unable to close memory pool'')
      else Inr (pool\<lparr>pool_base := NULL, pool_mapped := False, pool_rw := {}\<rparr>))"

text \<open>
  \<^verbatim>\<open>size_t ret = 0; while (ret < requested) { ret += POOL_CHUNK_SZ; } return ret;\<close>

  For a request above \<open>2^64 - 4096\<close> the sum wraps before it reaches the request and the
  loop never ends, so the loop is a partial function: \<open>None\<close> is "does not return".
\<close>

partial_function (option) size_needed_loop :: "64 word \<Rightarrow> 64 word \<Rightarrow> 64 word option" where
  "size_needed_loop ret requested =
     (if ret < requested then size_needed_loop (ret + POOL_CHUNK_SZ) requested else Some ret)"

definition size_needed :: "64 word \<Rightarrow> 64 word option" where
  "size_needed requested = size_needed_loop 0 requested"

definition mempool_alloc :: "MemPool \<Rightarrow> 64 word \<Rightarrow> failure + (64 word \<times> MemPool)" where
  "mempool_alloc pool amount =
     (if pool_size pool + amount + 1 \<ge> pool_alloc pool then
        (case size_needed amount of
           None \<Rightarrow> Inl Diverged
         | Some needed \<Rightarrow>
             if pool_alloc pool + needed > POOL_MAX_SZ
             then Inl (Internal ''out of memory in mmap pool'')
             else Inr (pool_base pool + pool_size pool,
                       pool\<lparr>pool_rw := pool_rw pool \<union>
                                 {unat (pool_alloc pool) ..< unat (pool_alloc pool) + unat needed},
                             pool_alloc := pool_alloc pool + needed,
                             pool_size := pool_size pool + amount\<rparr>))
      else Inr (pool_base pool + pool_size pool,
                pool\<lparr>pool_size := pool_size pool + amount\<rparr>))"

text \<open>
  A run of allocations on one pool; the result lists the regions handed out, each as
  (address, size), in call order.
\<close>

fun mempool_allocs :: "MemPool \<Rightarrow> 64 word list \<Rightarrow> failure + ((64 word \<times> 64 word) list \<times> MemPool)" where
  "mempool_allocs pool [] = Inr ([], pool)"
| "mempool_allocs pool (amount # rest) =
     (case mempool_alloc pool amount of
        Inl e \<Rightarrow> Inl e
      | Inr (p, pool') \<Rightarrow>
          (case mempool_allocs pool' rest of
             Inl e \<Rightarrow> Inl e
           | Inr (rs, pool'') \<Rightarrow> Inr ((p, amount) # rs, pool'')))"

section \<open>helper.c: growable arrays\<close>

text \<open>
  \<^verbatim>\<open>typedef struct { size_t it_sz, items, alloc; uint8_t *data; MemPool *pool; } Vector;\<close>

  The pool a vector allocates from is passed to the functions that allocate. The items
  are bytes in the arena; the functions below only compute addresses and counts.
\<close>

definition VEC_INIT_ALLOC :: "64 word" where
  "VEC_INIT_ALLOC = 32"

record Vector =
  vec_it_sz :: "64 word"
  vec_items :: "64 word"
  vec_alloc :: "64 word"
  vec_data :: "64 word"

definition vector_init :: "64 word \<Rightarrow> MemPool \<Rightarrow> failure + (Vector \<times> MemPool)" where
  "vector_init it_sz pool =
     (case mempool_alloc pool (it_sz * VEC_INIT_ALLOC) of
        Inl e \<Rightarrow> Inl e
      | Inr (p, pool') \<Rightarrow>
          Inr (\<lparr>vec_it_sz = it_sz, vec_items = 0, vec_alloc = VEC_INIT_ALLOC, vec_data = p\<rparr>,
               pool'))"

definition vector_init_size :: "64 word \<Rightarrow> MemPool \<Rightarrow> 64 word \<Rightarrow> failure + (Vector \<times> MemPool)" where
  "vector_init_size it_sz pool items =
     (case mempool_alloc pool (it_sz * items) of
        Inl e \<Rightarrow> Inl e
      | Inr (p, pool') \<Rightarrow>
          Inr (\<lparr>vec_it_sz = it_sz, vec_items = items, vec_alloc = items, vec_data = p\<rparr>,
               pool'))"

definition vector_idx :: "Vector \<Rightarrow> 64 word \<Rightarrow> 64 word" where
  "vector_idx vec idx =
     (if idx \<ge> vec_items vec then NULL else vec_data vec + idx * vec_it_sz vec)"

section \<open>The declarations parser.c uses\<close>

text \<open>
  Modelled from the spec: \<^verbatim>\<open>lexer.h\<close> and \<^verbatim>\<open>ast.h\<close> are not among the sources. The token kinds,
  literal tags, operators and types below are the ones \<^verbatim>\<open>parser.c\<close> names; \<open>TOK_OTHER\<close> stands
  for any kind the parser does not name. The spec (section 3) gives the shape of the tree:
  an expression is an integer literal (value, literal type), a variable reference, a binary
  operation (operator, left, right) or a call (callee name, arguments); a statement is a
  \<^verbatim>\<open>let\<close> binding (name, optional declared type, optional initializer, mutability), a
  \<^verbatim>\<open>return\<close> or a bare expression; a function has a name, parameters, a return type and a
  body. A \<^verbatim>\<open>Type *\<close> points at one of the constants \<^verbatim>\<open>U8_const\<close> ... \<^verbatim>\<open>void_const\<close>, so a
  type is the constant it points at and \<open>None\<close> is the null pointer.

  Every node \<^verbatim>\<open>make_expr\<close> allocates has its \<^verbatim>\<open>type\<close> field set to \<^verbatim>\<open>NULL\<close>; the parser never
  sets it otherwise, and the model leaves the field out. Nodes are values: the arena that
  holds them is modelled on its own above and is not threaded through the parser, so a
  parse the model accepts is a parse of the code as long as the 4 GiB arena is not
  exhausted (that stops the process with an internal error).
\<close>

datatype TokKind =
    TOK_INT | TOK_SYM | TOK_LPAREN | TOK_RPAREN | TOK_COMMA
  | TOK_ADD | TOK_SUB | TOK_MUL | TOK_DIV
  | TOK_DEQ | TOK_NEQ | TOK_GR | TOK_LE | TOK_GREQ | TOK_LEEQ
  | TOK_U8 | TOK_U16 | TOK_U32 | TOK_U64 | TOK_I8 | TOK_I16 | TOK_I32 | TOK_I64 | TOK_BOOL
  | TOK_EQ | TOK_COLON | TOK_NEWLINE
  | TOK_LET | TOK_MUT | TOK_RETURN
  | TOK_LCURLY | TOK_RCURLY
  | TOK_EOF
  | TOK_OTHER

datatype IntLitType =
    INTLIT_U8 | INTLIT_I8 | INTLIT_U16 | INTLIT_I16 | INTLIT_U32 | INTLIT_I32
  | INTLIT_U64 | INTLIT_I64 | INTLIT_I64_NONE

datatype BinOp =
    BINOP_ADD | BINOP_SUB | BINOP_MUL | BINOP_DIV
  | BINOP_EQ | BINOP_NEQ | BINOP_GR | BINOP_LE | BINOP_GREQ | BINOP_LEEQ

datatype Type =
    U8_const | U16_const | U32_const | U64_const
  | I8_const | I16_const | I32_const | I64_const
  | bool_const | void_const

record Token =
  tok_t :: TokKind
  tok_pos :: SourcePosition
  tok_intlit_type :: IntLitType

datatype Expr =
    EXPR_INT SourcePosition "64 word" IntLitType
  | EXPR_VAR SourcePosition
  | EXPR_BINOP SourcePosition BinOp Expr Expr
  | EXPR_FUNCALL SourcePosition SourcePosition "Expr list"

fun expr_pos :: "Expr \<Rightarrow> SourcePosition" where
  "expr_pos (EXPR_INT p v t) = p"
| "expr_pos (EXPR_VAR p) = p"
| "expr_pos (EXPR_BINOP p op l r) = p"
| "expr_pos (EXPR_FUNCALL p name args) = p"

text \<open>
  \<open>STMT_LET pos name type value mut\<close>: \<open>type\<close> and \<open>value\<close> are pointers that may be null,
  \<open>mut\<close> is the \<^verbatim>\<open>int\<close> flag.
\<close>

datatype Stmt =
    STMT_LET SourcePosition SourcePosition "Type option" "Expr option" int
  | STMT_RETURN "Expr option"
  | STMT_EXPR Expr

record Param =
  param_name :: SourcePosition
  param_type :: Type

record Function =
  fn_name :: SourcePosition
  fn_pos :: SourcePosition
  fn_params :: "Param list"
  fn_ret_type :: Type
  fn_body :: "Stmt list"

record AST =
  ast_src_base :: int
  ast_fns :: "Function list"

section \<open>parser.c: integer literals\<close>

text \<open>
  \<^verbatim>\<open>static const size_t intlit_pos_sz[] = { [INTLIT_U8] = 2, [INTLIT_I8] = 2, ... };\<close>
\<close>

fun intlit_pos_sz :: "IntLitType \<Rightarrow> 64 word" where
  "intlit_pos_sz INTLIT_U8 = 2"
| "intlit_pos_sz INTLIT_I8 = 2"
| "intlit_pos_sz INTLIT_U16 = 3"
| "intlit_pos_sz INTLIT_I16 = 3"
| "intlit_pos_sz INTLIT_U32 = 3"
| "intlit_pos_sz INTLIT_I32 = 3"
| "intlit_pos_sz INTLIT_U64 = 3"
| "intlit_pos_sz INTLIT_I64 = 3"
| "intlit_pos_sz INTLIT_I64_NONE = 0"

text \<open>
  \<^verbatim>\<open>__builtin_add_overflow(a, b, &res)\<close> with \<^verbatim>\<open>uint64_t a\<close>, \<^verbatim>\<open>int b\<close>: the sum is taken in the
  integers, stored modulo \<open>2^64\<close>, and the result says whether it did not fit.
\<close>

definition builtin_add_overflow :: "64 word \<Rightarrow> int \<Rightarrow> bool \<times> 64 word" where
  "builtin_add_overflow a b =
     (let s = uint a + b in (s < 0 \<or> 2 ^ 64 \<le> s, word_of_int s))"

text \<open>
  \<^verbatim>\<open>for (size_t i = 0; i < pos.sz; i++) {\<close>
  \<^verbatim>\<open>  if (!__builtin_add_overflow(*ret, pos.start[i] - '0', ret)) { return 0; }\<close>
  \<^verbatim>\<open>}\<close>
  \<^verbatim>\<open>return 1;\<close>

  The loop returns 0 at the first addition that does not overflow and 1 when it runs out
  of characters. The result pairs the returned \<^verbatim>\<open>int\<close> with the final \<^verbatim>\<open>*ret\<close>.
\<close>

function pos_to_num_loop :: "buffer \<Rightarrow> SourcePosition \<Rightarrow> nat \<Rightarrow> 64 word \<Rightarrow> failure + (int \<times> 64 word)" where
  "pos_to_num_loop m pos i ret =
     (if i < unat (pos_sz pos) then
        (case peek_byte m (pos_start pos + int i) of
           None \<Rightarrow> Inl OutOfBounds
         | Some c \<Rightarrow>
             (let (ovf, ret') = builtin_add_overflow ret (int (of_char c) - int (of_char CHR ''0''))
              in if \<not> ovf then Inr (0, ret')
                 else pos_to_num_loop m pos (i + 1) ret'))
      else Inr (1, ret))"
  by pat_completeness auto
termination
  by (relation "measure (\<lambda>(m, pos, i, ret). unat (pos_sz pos) - i)") auto

definition pos_to_num :: "buffer \<Rightarrow> SourcePosition \<Rightarrow> 64 word \<Rightarrow> failure + (int \<times> 64 word)" where
  "pos_to_num m pos ret = pos_to_num_loop m pos 0 ret"

text \<open>
  The message \<^verbatim>\<open>"overflow on '%.*s'"\<close> with precision \<^verbatim>\<open>(int)whole_pos.sz\<close> and string
  \<^verbatim>\<open>whole_pos.start\<close>: \<^verbatim>\<open>printf\<close> copies bytes up to the precision, or up to a NUL byte; a
  negative precision counts as none.
\<close>

function printf_s :: "buffer \<Rightarrow> int \<Rightarrow> nat option \<Rightarrow> failure + string" where
  "printf_s m p prec =
     (if prec = Some 0 then Inr []
      else (case peek_byte m p of
              None \<Rightarrow> Inl OutOfBounds
            | Some c \<Rightarrow>
                if c = CHR 0x00 then Inr []
                else (case printf_s m (p + 1) (map_option (\<lambda>n. n - 1) prec) of
                        Inl e \<Rightarrow> Inl e
                      | Inr cs \<Rightarrow> Inr (c # cs))))"
  by pat_completeness auto
termination
  by (relation "measure (\<lambda>(m, p, prec). nat (buf_start m + int (length (buf_bytes m)) - p))")
     (auto simp: peek_byte_def split: if_splits)

definition overflow_msg :: "buffer \<Rightarrow> SourcePosition \<Rightarrow> failure + string" where
  "overflow_msg m pos =
     (let prec = sint (ucast (pos_sz pos) :: 32 word)
      in case printf_s m (pos_start pos) (if prec < 0 then None else Some (nat prec)) of
           Inl e \<Rightarrow> Inl e
         | Inr txt \<Rightarrow> Inr (''overflow on '' @ [CHR 0x27] @ txt @ [CHR 0x27]))"

text \<open>
  \<^verbatim>\<open>make_intlit_expr(ast, whole_pos, t)\<close>. \<open>val0\<close> is what the freshly allocated node holds
  in \<^verbatim>\<open>data.intlit.val\<close> before \<^verbatim>\<open>pos_to_num\<close> adds to it: \<^verbatim>\<open>make_expr\<close> does not set it. The
  subtraction \<^verbatim>\<open>whole_pos.sz -= intlit_pos_sz[t]\<close> is on \<^verbatim>\<open>size_t\<close> and wraps.
\<close>

definition make_intlit_expr ::
  "buffer \<Rightarrow> AST \<Rightarrow> streams \<Rightarrow> 64 word \<Rightarrow> SourcePosition \<Rightarrow> IntLitType \<Rightarrow> failure + Expr" where
  "make_intlit_expr m ast out val0 whole_pos t =
     (let digits = whole_pos\<lparr>pos_sz := pos_sz whole_pos - intlit_pos_sz t\<rparr>
      in case pos_to_num m digits val0 of
           Inl e \<Rightarrow> Inl e
         | Inr (r, val) \<Rightarrow>
             if r \<noteq> 0 then
               (case overflow_msg m whole_pos of
                  Inl e \<Rightarrow> Inl e
                | Inr msg \<Rightarrow> Inl (log_source_err msg m (ast_src_base ast) whole_pos out))
             else Inr (EXPR_INT whole_pos val t))"

section \<open>The token stream\<close>

text \<open>
  Modelled from the spec: \<^verbatim>\<open>lexer.c\<close> is not among the sources. The spec describes the
  tokenizer as a linear scan producing a token stream with source-position spans. The
  stream is the list of tokens still to come: \<^verbatim>\<open>lexer_peek\<close> returns the next token and
  leaves it, \<^verbatim>\<open>lexer_next\<close> returns it and moves on, and at the end of the stream both
  return \<open>TOK_EOF\<close> at \<open>eof_pos\<close>.

  The state of the parser is the stream, the global \<^verbatim>\<open>const uint8_t *src_base\<close> of
  \<^verbatim>\<open>parser.c\<close> (a C global without initializer starts as the null pointer), the source
  buffer and the output streams.
\<close>

record pstate =
  toks :: "Token list"
  eof_pos :: SourcePosition
  src_base :: int
  memory :: buffer
  stdio :: streams

definition eof_token :: "pstate \<Rightarrow> Token" where
  "eof_token st = \<lparr>tok_t = TOK_EOF, tok_pos = eof_pos st, tok_intlit_type = INTLIT_I64_NONE\<rparr>"

definition lexer_peek :: "pstate \<Rightarrow> Token" where
  "lexer_peek st = (case toks st of [] \<Rightarrow> eof_token st | tok # rest \<Rightarrow> tok)"

definition lexer_next :: "pstate \<Rightarrow> Token \<times> pstate" where
  "lexer_next st =
     (case toks st of [] \<Rightarrow> (eof_token st, st) | tok # rest \<Rightarrow> (tok, st\<lparr>toks := rest\<rparr>))"

section \<open>parser.c: expressions\<close>

definition expect :: "TokKind \<Rightarrow> string \<Rightarrow> pstate \<Rightarrow> failure + (Token \<times> pstate)" where
  "expect t err_msg st =
     (let (ret, st') = lexer_next st
      in if tok_t ret \<noteq> t
         then Inl (log_source_err err_msg (memory st') (src_base st') (tok_pos ret) (stdio st'))
         else Inr (ret, st'))"

definition msg_expected_rparen :: string where
  "msg_expected_rparen = ''expected '' @ [CHR 0x27] @ '')'' @ [CHR 0x27]"

definition msg_expected_lparen :: string where
  "msg_expected_lparen = ''expected '' @ [CHR 0x27] @ ''('' @ [CHR 0x27]"

definition msg_expected_newline :: string where
  "msg_expected_newline = ''expected newline or '' @ [CHR 0x27] @ '';'' @ [CHR 0x27]"

definition msg_expected_eq_or_semi :: string where
  "msg_expected_eq_or_semi =
     ''expected '' @ [CHR 0x27] @ ''='' @ [CHR 0x27] @ '' or '' @ [CHR 0x27] @ '';'' @ [CHR 0x27]"

definition msg_expected_eq_or_colon :: string where
  "msg_expected_eq_or_colon =
     ''expected '' @ [CHR 0x27] @ ''='' @ [CHR 0x27] @ '' or '' @ [CHR 0x27] @ '':'' @ [CHR 0x27]"

definition parse_binop :: "pstate \<Rightarrow> failure + (BinOp \<times> pstate)" where
  "parse_binop st =
     (let (tok, st') = lexer_next st
      in if tok_t tok = TOK_ADD then Inr (BINOP_ADD, st')
         else if tok_t tok = TOK_SUB then Inr (BINOP_SUB, st')
         else if tok_t tok = TOK_MUL then Inr (BINOP_MUL, st')
         else if tok_t tok = TOK_DIV then Inr (BINOP_DIV, st')
         else if tok_t tok = TOK_DEQ then Inr (BINOP_EQ, st')
         else if tok_t tok = TOK_NEQ then Inr (BINOP_NEQ, st')
         else if tok_t tok = TOK_GR then Inr (BINOP_GR, st')
         else if tok_t tok = TOK_LE then Inr (BINOP_LE, st')
         else if tok_t tok = TOK_GREQ then Inr (BINOP_GREQ, st')
         else if tok_t tok = TOK_LEEQ then Inr (BINOP_LEEQ, st')
         else Inl (Internal ''impossible binary op token''))"

text \<open>
  The expression parser is mutually recursive (\<^verbatim>\<open>parse_primary\<close> calls \<^verbatim>\<open>parse_expr\<close> for a
  parenthesis and for call arguments). Each function takes a recursion bound that every
  call lowers by one; \<open>OutOfFuel\<close> is the result when it reaches 0. The \<^verbatim>\<open>while\<close> loops of
  \<^verbatim>\<open>parse_funcall\<close>, \<^verbatim>\<open>parse_factor\<close>, \<^verbatim>\<open>parse_term\<close> and \<^verbatim>\<open>parse_comp\<close> are the \<open>_args\<close> and
  \<open>_loop\<close> functions; their extra argument is the loop variable (\<^verbatim>\<open>args\<close>, \<^verbatim>\<open>ret\<close>).

  The literal node's value field starts at 0: the node comes from \<^verbatim>\<open>mempool_alloc\<close>, which
  hands out each byte of a fresh anonymous mapping once, and such a mapping reads as zero.
\<close>

function parse_primary :: "nat \<Rightarrow> AST \<Rightarrow> pstate \<Rightarrow> failure + (Expr \<times> pstate)"
  and parse_funcall_args :: "nat \<Rightarrow> AST \<Rightarrow> Expr list \<Rightarrow> pstate \<Rightarrow> failure + (Expr list \<times> pstate)"
  and parse_funcall :: "nat \<Rightarrow> AST \<Rightarrow> Token \<Rightarrow> pstate \<Rightarrow> failure + (Expr \<times> pstate)"
  and parse_factor_loop :: "nat \<Rightarrow> AST \<Rightarrow> Expr \<Rightarrow> pstate \<Rightarrow> failure + (Expr \<times> pstate)"
  and parse_factor :: "nat \<Rightarrow> AST \<Rightarrow> pstate \<Rightarrow> failure + (Expr \<times> pstate)"
  and parse_term_loop :: "nat \<Rightarrow> AST \<Rightarrow> Expr \<Rightarrow> pstate \<Rightarrow> failure + (Expr \<times> pstate)"
  and parse_term :: "nat \<Rightarrow> AST \<Rightarrow> pstate \<Rightarrow> failure + (Expr \<times> pstate)"
  and parse_comp_loop :: "nat \<Rightarrow> AST \<Rightarrow> Expr \<Rightarrow> pstate \<Rightarrow> failure + (Expr \<times> pstate)"
  and parse_comp :: "nat \<Rightarrow> AST \<Rightarrow> pstate \<Rightarrow> failure + (Expr \<times> pstate)"
  and parse_expr :: "nat \<Rightarrow> AST \<Rightarrow> pstate \<Rightarrow> failure + (Expr \<times> pstate)"
where
  "parse_primary 0 ast st = Inl OutOfFuel"
| "parse_primary (Suc n) ast st =
     (let (tok, st1) = lexer_next st
      in if tok_t tok = TOK_INT then
           (case make_intlit_expr (memory st1) ast (stdio st1) 0 (tok_pos tok)
                   (tok_intlit_type tok) of
              Inl e \<Rightarrow> Inl e
            | Inr ret \<Rightarrow> Inr (ret, st1))
         else if tok_t tok = TOK_SYM then
           (if tok_t (lexer_peek st1) = TOK_LPAREN then parse_funcall n ast tok st1
            else Inr (EXPR_VAR (tok_pos tok), st1))
         else if tok_t tok = TOK_LPAREN then
           (case parse_expr n ast st1 of
              Inl e \<Rightarrow> Inl e
            | Inr (ret, st2) \<Rightarrow>
                (case expect TOK_RPAREN msg_expected_rparen st2 of
                   Inl e \<Rightarrow> Inl e
                 | Inr (rp, st3) \<Rightarrow> Inr (ret, st3)))
         else Inl (log_source_err ''expected expression'' (memory st1) (src_base st1)
                     (tok_pos tok) (stdio st1)))"
| "parse_funcall_args 0 ast args st = Inl OutOfFuel"
| "parse_funcall_args (Suc n) ast args st =
     (if tok_t (lexer_peek st) \<noteq> TOK_RPAREN then
        (case parse_expr n ast st of
           Inl e \<Rightarrow> Inl e
         | Inr (temp, st1) \<Rightarrow>
             if tok_t (lexer_peek st1) \<noteq> TOK_COMMA then Inr (args @ [temp], st1)
             else parse_funcall_args n ast (args @ [temp]) (snd (lexer_next st1)))
      else Inr (args, st))"
| "parse_funcall 0 ast name_tok st = Inl OutOfFuel"
| "parse_funcall (Suc n) ast name_tok st =
     (case parse_funcall_args n ast [] (snd (lexer_next st)) of
        Inl e \<Rightarrow> Inl e
      | Inr (args, st1) \<Rightarrow>
          (case expect TOK_RPAREN msg_expected_rparen st1 of
             Inl e \<Rightarrow> Inl e
           | Inr (last_paren, st2) \<Rightarrow>
               Inr (EXPR_FUNCALL (combine_pos (tok_pos name_tok) (tok_pos last_paren))
                      (tok_pos name_tok) args, st2)))"
| "parse_factor_loop 0 ast ret st = Inl OutOfFuel"
| "parse_factor_loop (Suc n) ast ret st =
     (if tok_t (lexer_peek st) = TOK_MUL \<or> tok_t (lexer_peek st) = TOK_DIV then
        (case parse_binop st of
           Inl e \<Rightarrow> Inl e
         | Inr (op, st1) \<Rightarrow>
             (case parse_primary n ast st1 of
                Inl e \<Rightarrow> Inl e
              | Inr (right, st2) \<Rightarrow>
                  parse_factor_loop n ast
                    (EXPR_BINOP (combine_pos (expr_pos ret) (expr_pos right)) op ret right) st2))
      else Inr (ret, st))"
| "parse_factor 0 ast st = Inl OutOfFuel"
| "parse_factor (Suc n) ast st =
     (case parse_primary n ast st of
        Inl e \<Rightarrow> Inl e
      | Inr (ret, st1) \<Rightarrow> parse_factor_loop n ast ret st1)"
| "parse_term_loop 0 ast ret st = Inl OutOfFuel"
| "parse_term_loop (Suc n) ast ret st =
     (if tok_t (lexer_peek st) = TOK_ADD \<or> tok_t (lexer_peek st) = TOK_SUB then
        (case parse_binop st of
           Inl e \<Rightarrow> Inl e
         | Inr (op, st1) \<Rightarrow>
             (case parse_factor n ast st1 of
                Inl e \<Rightarrow> Inl e
              | Inr (right, st2) \<Rightarrow>
                  parse_term_loop n ast
                    (EXPR_BINOP (combine_pos (expr_pos ret) (expr_pos right)) op ret right) st2))
      else Inr (ret, st))"
| "parse_term 0 ast st = Inl OutOfFuel"
| "parse_term (Suc n) ast st =
     (case parse_factor n ast st of
        Inl e \<Rightarrow> Inl e
      | Inr (ret, st1) \<Rightarrow> parse_term_loop n ast ret st1)"
| "parse_comp_loop 0 ast ret st = Inl OutOfFuel"
| "parse_comp_loop (Suc n) ast ret st =
     (if tok_t (lexer_peek st) = TOK_DEQ \<or> tok_t (lexer_peek st) = TOK_NEQ
         \<or> tok_t (lexer_peek st) = TOK_GR \<or> tok_t (lexer_peek st) = TOK_LE
         \<or> tok_t (lexer_peek st) = TOK_GREQ \<or> tok_t (lexer_peek st) = TOK_LEEQ then
        (case parse_binop st of
           Inl e \<Rightarrow> Inl e
         | Inr (op, st1) \<Rightarrow>
             (case parse_term n ast st1 of
                Inl e \<Rightarrow> Inl e
              | Inr (right, st2) \<Rightarrow>
                  parse_comp_loop n ast
                    (EXPR_BINOP (combine_pos (expr_pos ret) (expr_pos right)) op ret right) st2))
      else Inr (ret, st))"
| "parse_comp 0 ast st = Inl OutOfFuel"
| "parse_comp (Suc n) ast st =
     (case parse_term n ast st of
        Inl e \<Rightarrow> Inl e
      | Inr (ret, st1) \<Rightarrow> parse_comp_loop n ast ret st1)"
| "parse_expr 0 ast st = Inl OutOfFuel"
| "parse_expr (Suc n) ast st = parse_comp n ast st"
  by pat_completeness auto
termination
  by (relation "measure (\<lambda>x. case x of
        Inl (Inl (Inl (n, r))) \<Rightarrow> n
      | Inl (Inl (Inr (n, r))) \<Rightarrow> n
      | Inl (Inr (Inl (n, r))) \<Rightarrow> n
      | Inl (Inr (Inr (Inl (n, r)))) \<Rightarrow> n
      | Inl (Inr (Inr (Inr (n, r)))) \<Rightarrow> n
      | Inr (Inl (Inl (n, r))) \<Rightarrow> n
      | Inr (Inl (Inr (n, r))) \<Rightarrow> n
      | Inr (Inr (Inl (n, r))) \<Rightarrow> n
      | Inr (Inr (Inr (Inl (n, r)))) \<Rightarrow> n
      | Inr (Inr (Inr (Inr (n, r)))) \<Rightarrow> n)") simp_all

section \<open>parser.c: types, statements, functions\<close>

definition parse_type :: "pstate \<Rightarrow> failure + (Type \<times> pstate)" where
  "parse_type st =
     (let (type_tok, st') = lexer_next st
      in if tok_t type_tok = TOK_U8 then Inr (U8_const, st')
         else if tok_t type_tok = TOK_U16 then Inr (U16_const, st')
         else if tok_t type_tok = TOK_U32 then Inr (U32_const, st')
         else if tok_t type_tok = TOK_U64 then Inr (U64_const, st')
         else if tok_t type_tok = TOK_I8 then Inr (I8_const, st')
         else if tok_t type_tok = TOK_I16 then Inr (I16_const, st')
         else if tok_t type_tok = TOK_I32 then Inr (I32_const, st')
         else if tok_t type_tok = TOK_I64 then Inr (I64_const, st')
         else if tok_t type_tok = TOK_BOOL then Inr (bool_const, st')
         else Inl (log_source_err ''expected type name'' (memory st') (src_base st')
                     (tok_pos type_tok) (stdio st')))"

definition parse_let :: "nat \<Rightarrow> AST \<Rightarrow> int \<Rightarrow> pstate \<Rightarrow> failure + (Stmt \<times> pstate)" where
  "parse_let n ast mut st =
     (let (first_tok, st1) = lexer_next st
      in case expect TOK_SYM ''expected variable name'' st1 of
           Inl e \<Rightarrow> Inl e
         | Inr (var_name, st2) \<Rightarrow>
             (let (middle_tok, st3) = lexer_next st2
              in if tok_t middle_tok = TOK_EQ then
                   (case parse_expr n ast st3 of
                      Inl e \<Rightarrow> Inl e
                    | Inr (val, st4) \<Rightarrow>
                        (case expect TOK_NEWLINE msg_expected_newline st4 of
                           Inl e \<Rightarrow> Inl e
                         | Inr (last_tok, st5) \<Rightarrow>
                             Inr (STMT_LET (combine_pos (tok_pos first_tok) (tok_pos last_tok))
                                    (tok_pos var_name) None (Some val) mut, st5)))
                 else if tok_t middle_tok = TOK_COLON then
                   (case parse_type st3 of
                      Inl e \<Rightarrow> Inl e
                    | Inr (ty, st4) \<Rightarrow>
                        (let (equal_tok, st5) = lexer_next st4
                         in if tok_t equal_tok = TOK_EQ then
                              (case parse_expr n ast st5 of
                                 Inl e \<Rightarrow> Inl e
                               | Inr (val, st6) \<Rightarrow>
                                   (case expect TOK_NEWLINE msg_expected_newline st6 of
                                      Inl e \<Rightarrow> Inl e
                                    | Inr (last_tok, st7) \<Rightarrow>
                                        Inr (STMT_LET
                                               (combine_pos (tok_pos first_tok) (tok_pos last_tok))
                                               (tok_pos var_name) (Some ty) (Some val) mut, st7)))
                            else if tok_t equal_tok = TOK_NEWLINE then
                              Inr (STMT_LET (combine_pos (tok_pos first_tok) (tok_pos equal_tok))
                                     (tok_pos var_name) (Some ty) None mut, st5)
                            else Inl (log_source_err msg_expected_eq_or_semi (memory st5)
                                        (src_base st5) (tok_pos equal_tok) (stdio st5))))
                 else Inl (log_source_err msg_expected_eq_or_colon (memory st3) (src_base st3)
                             (tok_pos middle_tok) (stdio st3))))"

definition parse_expr_stmt :: "nat \<Rightarrow> AST \<Rightarrow> pstate \<Rightarrow> failure + (Stmt \<times> pstate)" where
  "parse_expr_stmt n ast st =
     (case parse_expr n ast st of
        Inl e \<Rightarrow> Inl e
      | Inr (ex, st1) \<Rightarrow>
          (case expect TOK_NEWLINE msg_expected_newline st1 of
             Inl e \<Rightarrow> Inl e
           | Inr (nl, st2) \<Rightarrow> Inr (STMT_EXPR ex, st2)))"

definition parse_return :: "nat \<Rightarrow> AST \<Rightarrow> pstate \<Rightarrow> failure + (Stmt \<times> pstate)" where
  "parse_return n ast st =
     (let st1 = snd (lexer_next st)
      in if tok_t (lexer_peek st1) = TOK_NEWLINE then Inr (STMT_RETURN None, snd (lexer_next st1))
         else (case parse_expr n ast st1 of
                 Inl e \<Rightarrow> Inl e
               | Inr (ex, st2) \<Rightarrow>
                   (case expect TOK_NEWLINE msg_expected_newline st2 of
                      Inl e \<Rightarrow> Inl e
                    | Inr (nl, st3) \<Rightarrow> Inr (STMT_RETURN (Some ex), st3))))"

text \<open>The \<^verbatim>\<open>while (1)\<close> of \<^verbatim>\<open>parse_block\<close>; \<open>stmts\<close> is the vector \<^verbatim>\<open>block->stmts\<close> so far.\<close>

fun parse_block_loop :: "nat \<Rightarrow> AST \<Rightarrow> Stmt list \<Rightarrow> pstate \<Rightarrow> failure + (Stmt list \<times> pstate)" where
  "parse_block_loop 0 ast stmts st = Inl OutOfFuel"
| "parse_block_loop (Suc n) ast stmts st =
     (if tok_t (lexer_peek st) = TOK_LET then
        (case parse_let n ast 0 st of
           Inl e \<Rightarrow> Inl e
         | Inr (s, st1) \<Rightarrow> parse_block_loop n ast (stmts @ [s]) st1)
      else if tok_t (lexer_peek st) = TOK_RETURN then
        (case parse_return n ast st of
           Inl e \<Rightarrow> Inl e
         | Inr (s, st1) \<Rightarrow> parse_block_loop n ast (stmts @ [s]) st1)
      else if tok_t (lexer_peek st) = TOK_MUT then
        (case parse_let n ast 1 st of
           Inl e \<Rightarrow> Inl e
         | Inr (s, st1) \<Rightarrow> parse_block_loop n ast (stmts @ [s]) st1)
      else if tok_t (lexer_peek st) = TOK_RCURLY then Inr (stmts, snd (lexer_next st))
      else
        (case parse_expr_stmt n ast st of
           Inl e \<Rightarrow> Inl e
         | Inr (s, st1) \<Rightarrow> parse_block_loop n ast (stmts @ [s]) st1))"

definition parse_block :: "nat \<Rightarrow> AST \<Rightarrow> pstate \<Rightarrow> failure + (Stmt list \<times> pstate)" where
  "parse_block n ast st = parse_block_loop n ast [] (snd (lexer_next st))"

text \<open>
  The parameter loop of \<^verbatim>\<open>parse_fn\<close>. It needs no bound: every round takes a name token
  off the stream, and at the end of the stream \<^verbatim>\<open>expect\<close> stops the process.
\<close>

lemma lexer_next_length: "length (toks (snd (lexer_next st))) \<le> length (toks st)"
  by (simp add: lexer_next_def split: list.splits)

lemma expect_consumes:
  "expect t msg st = Inr (tok, st') \<Longrightarrow> t \<noteq> TOK_EOF \<Longrightarrow> length (toks st') < length (toks st)"
  by (auto simp: expect_def lexer_next_def eof_token_def split: list.splits if_splits)

lemma parse_type_length:
  "parse_type st = Inr (ty, st') \<Longrightarrow> length (toks st') \<le> length (toks st)"
  by (auto simp: parse_type_def lexer_next_def split: list.splits if_splits)

function parse_params :: "Param list \<Rightarrow> pstate \<Rightarrow> failure + (Param list \<times> pstate)" where
  "parse_params params st =
     (if tok_t (lexer_peek st) \<noteq> TOK_RPAREN then
        (case expect TOK_SYM ''expected param name'' st of
           Inl e \<Rightarrow> Inl e
         | Inr (name_tok, st1) \<Rightarrow>
             (case parse_type st1 of
                Inl e \<Rightarrow> Inl e
              | Inr (ty, st2) \<Rightarrow>
                  parse_params (params @ [\<lparr>param_name = tok_pos name_tok, param_type = ty\<rparr>])
                    (if tok_t (lexer_peek st2) = TOK_COMMA then snd (lexer_next st2) else st2)))
      else Inr (params, st))"
  by pat_completeness auto
termination
proof (relation "measure (\<lambda>(params, st). length (toks st))")
  show "wf (measure (\<lambda>(params, st). length (toks st)))" by simp
next
  fix params :: "Param list" and st :: pstate and r1 name_tok st1 r2 ty st2
  assume "expect TOK_SYM ''expected param name'' st = Inr r1" and "(name_tok, st1) = r1"
    and "parse_type st1 = Inr r2" and "(ty, st2) = r2"
  then have a: "length (toks st1) < length (toks st)"
    and b: "length (toks st2) \<le> length (toks st1)"
    using expect_consumes [of TOK_SYM _ st name_tok st1] parse_type_length [of st1 ty st2]
    by auto
  have "length (toks (snd (lexer_next st2))) \<le> length (toks st2)" by (rule lexer_next_length)
  with a b show "((params @ [\<lparr>param_name = tok_pos name_tok, param_type = ty\<rparr>],
           if tok_t (lexer_peek st2) = TOK_COMMA then snd (lexer_next st2) else st2),
          params, st) \<in> measure (\<lambda>(params, st). length (toks st))"
    by simp
qed

definition parse_fn :: "nat \<Rightarrow> AST \<Rightarrow> pstate \<Rightarrow> failure + (Function \<times> pstate)" where
  "parse_fn n ast st =
     (case expect TOK_SYM ''expected function name'' st of
        Inl e \<Rightarrow> Inl e
      | Inr (name_tok, st1) \<Rightarrow>
          (case expect TOK_LPAREN msg_expected_lparen st1 of
             Inl e \<Rightarrow> Inl e
           | Inr (lp, st2) \<Rightarrow>
               (case parse_params [] st2 of
                  Inl e \<Rightarrow> Inl e
                | Inr (params, st3) \<Rightarrow>
                    (let st4 = snd (lexer_next st3)
                     in case (if tok_t (lexer_peek st4) \<noteq> TOK_LCURLY then parse_type st4
                              else Inr (void_const, st4)) of
                          Inl e \<Rightarrow> Inl e
                        | Inr (ret_type, st5) \<Rightarrow>
                            (case parse_block n ast st5 of
                               Inl e \<Rightarrow> Inl e
                             | Inr (body, st6) \<Rightarrow>
                                 Inr (\<lparr>fn_name = tok_pos name_tok, fn_pos = tok_pos name_tok,
                                       fn_params = params, fn_ret_type = ret_type,
                                       fn_body = body\<rparr>, st6))))))"

text \<open>
  Modelled from the spec: \<^verbatim>\<open>ast_init\<close> is in \<^verbatim>\<open>ast.c\<close>, not among the sources. It sets up the
  unit's arena and its empty function vector and records the source pointer that
  \<^verbatim>\<open>make_intlit_expr\<close> reads back as \<^verbatim>\<open>ast->src_base\<close> (all spans reference one immutable source
  buffer supplied to the whole compilation).
\<close>

definition ast_init :: "int \<Rightarrow> AST" where
  "ast_init src = \<lparr>ast_src_base = src, ast_fns = []\<rparr>"

text \<open>
  \<^verbatim>\<open>parse_ast(src)\<close>: the loop over the functions of the file, and only then
  \<^verbatim>\<open>src_base = src;\<close>.
\<close>

fun parse_ast_loop :: "nat \<Rightarrow> AST \<Rightarrow> pstate \<Rightarrow> failure + (AST \<times> pstate)" where
  "parse_ast_loop 0 ast st = Inl OutOfFuel"
| "parse_ast_loop (Suc n) ast st =
     (if tok_t (lexer_peek st) \<noteq> TOK_EOF then
        (case parse_fn n ast st of
           Inl e \<Rightarrow> Inl e
         | Inr (f, st1) \<Rightarrow> parse_ast_loop n (ast\<lparr>ast_fns := ast_fns ast @ [f]\<rparr>) st1)
      else Inr (ast, st))"

definition parse_ast :: "nat \<Rightarrow> int \<Rightarrow> pstate \<Rightarrow> failure + (AST \<times> pstate)" where
  "parse_ast n src st =
     (case parse_ast_loop n (ast_init src) st of
        Inl e \<Rightarrow> Inl e
      | Inr (ret, st1) \<Rightarrow> Inr (ret, st1\<lparr>src_base := src\<rparr>))"

section \<open>Notions used to state the properties\<close>

text \<open>
  A pool as \<^verbatim>\<open>mempool_init\<close> leaves it and \<^verbatim>\<open>mempool_alloc\<close> keeps it: the mapping exists at a
  non-null address and lies in the address space, the used size is below the committed
  size, the committed size is at most \<^verbatim>\<open>POOL_MAX_SZ\<close>, and the committed bytes are exactly the
  readable and writable ones.
\<close>

definition pool_wf :: "MemPool \<Rightarrow> bool" where
  "pool_wf p \<longleftrightarrow>
     pool_mapped p \<and> pool_base p \<noteq> NULL
     \<and> unat (pool_base p) + unat POOL_MAX_SZ \<le> 2 ^ 64
     \<and> unat (pool_size p) < unat (pool_alloc p)
     \<and> unat (pool_alloc p) \<le> unat POOL_MAX_SZ
     \<and> pool_rw p = {0 ..< unat (pool_alloc p)}"

text \<open>
  A request that no sum of \<^verbatim>\<open>mempool_alloc\<close> can wrap on: the amount, the pool's maximal size and
  one chunk together fit in 64 bits.
\<close>

definition amount_ok :: "64 word \<Rightarrow> bool" where
  "amount_ok amount \<longleftrightarrow> unat amount + unat POOL_MAX_SZ + unat POOL_CHUNK_SZ \<le> 2 ^ 64"

text \<open>
  A vector whose storage is a block of the address space: the data pointer is not null and
  the items end at or below \<open>2^64\<close>.
\<close>

definition vector_wf :: "Vector \<Rightarrow> bool" where
  "vector_wf v \<longleftrightarrow>
     vec_data v \<noteq> NULL
     \<and> unat (vec_data v) + unat (vec_items v) * unat (vec_it_sz v) \<le> 2 ^ 64"

text \<open>The least multiple of the chunk size that is not below \<open>n\<close>.\<close>

definition round_up_chunk :: "nat \<Rightarrow> nat" where
  "round_up_chunk n = 4096 * ((n + 4095) div 4096)"

text \<open>
  Modelled from the spec: the range of each literal type, which no table of the source holds.
  The spec names unsigned and signed integers of width 8, 16, 32 and 64, and a default signed
  64-bit type for a literal without suffix; \<open>intlit_max\<close> is the largest value of each.
  \<open>dec_value\<close> is the number a string of decimal digits denotes.
\<close>

fun intlit_max :: "IntLitType \<Rightarrow> nat" where
  "intlit_max INTLIT_U8 = 2 ^ 8 - 1"
| "intlit_max INTLIT_I8 = 2 ^ 7 - 1"
| "intlit_max INTLIT_U16 = 2 ^ 16 - 1"
| "intlit_max INTLIT_I16 = 2 ^ 15 - 1"
| "intlit_max INTLIT_U32 = 2 ^ 32 - 1"
| "intlit_max INTLIT_I32 = 2 ^ 31 - 1"
| "intlit_max INTLIT_U64 = 2 ^ 64 - 1"
| "intlit_max INTLIT_I64 = 2 ^ 63 - 1"
| "intlit_max INTLIT_I64_NONE = 2 ^ 63 - 1"

definition is_digit :: "char \<Rightarrow> bool" where
  "is_digit c \<longleftrightarrow> of_char CHR ''0'' \<le> (of_char c :: nat) \<and> (of_char c :: nat) \<le> of_char CHR ''9''"

definition digit_val :: "char \<Rightarrow> nat" where
  "digit_val c = of_char c - of_char CHR ''0''"

definition dec_value :: "string \<Rightarrow> nat" where
  "dec_value ds = foldl (\<lambda>a c. 10 * a + digit_val c) 0 ds"





text \<open>
  Modelled from the spec: the expression grammar of the spec's section 6, written as the
  token sequences each level derives and the tree each derivation denotes. Comparison
  (\<^verbatim>\<open>== != > < >= <=\<close>) is the lowest level, then additive (\<^verbatim>\<open>+ -\<close>), then multiplicative
  (\<^verbatim>\<open>* /\<close>); every level is left-associative: the left operand of an operator is of the
  operator's own level, the right operand of the next higher one. A primary is a literal,
  a name, a call or a parenthesised expression. The operator tags are those
  \<^verbatim>\<open>parse_binop\<close> gives the tokens; a literal's node is the one \<^verbatim>\<open>make_intlit_expr\<close> makes.
\<close>

definition mul_op :: "TokKind \<Rightarrow> BinOp \<Rightarrow> bool" where
  "mul_op k op \<longleftrightarrow> (k = TOK_MUL \<and> op = BINOP_MUL) \<or> (k = TOK_DIV \<and> op = BINOP_DIV)"

definition add_op :: "TokKind \<Rightarrow> BinOp \<Rightarrow> bool" where
  "add_op k op \<longleftrightarrow> (k = TOK_ADD \<and> op = BINOP_ADD) \<or> (k = TOK_SUB \<and> op = BINOP_SUB)"

definition cmp_op :: "TokKind \<Rightarrow> BinOp \<Rightarrow> bool" where
  "cmp_op k op \<longleftrightarrow>
     (k = TOK_DEQ \<and> op = BINOP_EQ) \<or> (k = TOK_NEQ \<and> op = BINOP_NEQ)
     \<or> (k = TOK_GR \<and> op = BINOP_GR) \<or> (k = TOK_LE \<and> op = BINOP_LE)
     \<or> (k = TOK_GREQ \<and> op = BINOP_GREQ) \<or> (k = TOK_LEEQ \<and> op = BINOP_LEEQ)"

definition binop_node :: "BinOp \<Rightarrow> Expr \<Rightarrow> Expr \<Rightarrow> Expr" where
  "binop_node op l r = EXPR_BINOP (combine_pos (expr_pos l) (expr_pos r)) op l r"

inductive
  grammar_primary :: "buffer \<Rightarrow> AST \<Rightarrow> streams \<Rightarrow> Token list \<Rightarrow> Expr \<Rightarrow> bool" and
  grammar_args :: "buffer \<Rightarrow> AST \<Rightarrow> streams \<Rightarrow> Token list \<Rightarrow> Expr list \<Rightarrow> bool" and
  grammar_factor :: "buffer \<Rightarrow> AST \<Rightarrow> streams \<Rightarrow> Token list \<Rightarrow> Expr \<Rightarrow> bool" and
  grammar_term :: "buffer \<Rightarrow> AST \<Rightarrow> streams \<Rightarrow> Token list \<Rightarrow> Expr \<Rightarrow> bool" and
  grammar_comp :: "buffer \<Rightarrow> AST \<Rightarrow> streams \<Rightarrow> Token list \<Rightarrow> Expr \<Rightarrow> bool"
  for m :: buffer and ast :: AST and out :: streams
where
  literal:
    "tok_t tok = TOK_INT \<Longrightarrow>
     make_intlit_expr m ast out 0 (tok_pos tok) (tok_intlit_type tok) = Inr e \<Longrightarrow>
     grammar_primary m ast out [tok] e"
| name:
    "tok_t tok = TOK_SYM \<Longrightarrow> grammar_primary m ast out [tok] (EXPR_VAR (tok_pos tok))"
| call:
    "tok_t f = TOK_SYM \<Longrightarrow> tok_t lp = TOK_LPAREN \<Longrightarrow> tok_t rp = TOK_RPAREN \<Longrightarrow>
     grammar_args m ast out ts args \<Longrightarrow>
     grammar_primary m ast out (f # lp # ts @ [rp])
       (EXPR_FUNCALL (combine_pos (tok_pos f) (tok_pos rp)) (tok_pos f) args)"
| paren:
    "tok_t lp = TOK_LPAREN \<Longrightarrow> tok_t rp = TOK_RPAREN \<Longrightarrow> grammar_comp m ast out ts e \<Longrightarrow>
     grammar_primary m ast out (lp # ts @ [rp]) e"
| no_args:
    "grammar_args m ast out [] []"
| last_arg:
    "grammar_comp m ast out ts e \<Longrightarrow> grammar_args m ast out ts [e]"
| more_args:
    "grammar_comp m ast out ts e \<Longrightarrow> tok_t comma = TOK_COMMA \<Longrightarrow>
     grammar_args m ast out ts' es \<Longrightarrow>
     grammar_args m ast out (ts @ comma # ts') (e # es)"
| factor_primary:
    "grammar_primary m ast out ts e \<Longrightarrow> grammar_factor m ast out ts e"
| factor_op:
    "grammar_factor m ast out ts1 l \<Longrightarrow> mul_op (tok_t tok) op \<Longrightarrow>
     grammar_primary m ast out ts2 r \<Longrightarrow>
     grammar_factor m ast out (ts1 @ tok # ts2) (binop_node op l r)"
| term_factor:
    "grammar_factor m ast out ts e \<Longrightarrow> grammar_term m ast out ts e"
| term_op:
    "grammar_term m ast out ts1 l \<Longrightarrow> add_op (tok_t tok) op \<Longrightarrow>
     grammar_factor m ast out ts2 r \<Longrightarrow>
     grammar_term m ast out (ts1 @ tok # ts2) (binop_node op l r)"
| comp_term:
    "grammar_term m ast out ts e \<Longrightarrow> grammar_comp m ast out ts e"
| comp_op:
    "grammar_comp m ast out ts1 l \<Longrightarrow> cmp_op (tok_t tok) op \<Longrightarrow>
     grammar_term m ast out ts2 r \<Longrightarrow>
     grammar_comp m ast out (ts1 @ tok # ts2) (binop_node op l r)"

text \<open>
  \<open>consumed st st' ts\<close>: going from \<open>st\<close> to \<open>st'\<close> took exactly the tokens \<open>ts\<close> off the
  stream and changed nothing else.
\<close>

definition consumed :: "pstate \<Rightarrow> pstate \<Rightarrow> Token list \<Rightarrow> bool" where
  "consumed st st' ts \<longleftrightarrow> toks st = ts @ toks st' \<and> st' = st\<lparr>toks := toks st'\<rparr>"

text \<open>The type a type keyword names, as \<^verbatim>\<open>parse_type\<close> reads it.\<close>

fun type_of_tok :: "TokKind \<Rightarrow> Type option" where
  "type_of_tok TOK_U8 = Some U8_const"
| "type_of_tok TOK_U16 = Some U16_const"
| "type_of_tok TOK_U32 = Some U32_const"
| "type_of_tok TOK_U64 = Some U64_const"
| "type_of_tok TOK_I8 = Some I8_const"
| "type_of_tok TOK_I16 = Some I16_const"
| "type_of_tok TOK_I32 = Some I32_const"
| "type_of_tok TOK_I64 = Some I64_const"
| "type_of_tok TOK_BOOL = Some bool_const"
| "type_of_tok k = None"

section \<open>Notions used in the proofs about the parser\<close>

text \<open>
  Soundness of each parsing function at one recursion bound: what it returns is a derivation
  of the grammar for exactly the tokens it took. For the loops the tree so far (\<open>ret\<close>, or the
  arguments \<open>args\<close>) is extended.
\<close>

definition sound_primary :: "nat \<Rightarrow> AST \<Rightarrow> bool" where
  "sound_primary n ast \<longleftrightarrow>
     (\<forall>st e st'. parse_primary n ast st = Inr (e, st') \<longrightarrow>
        (\<exists>ts. consumed st st' ts \<and> grammar_primary (memory st) ast (stdio st) ts e))"

definition sound_args :: "nat \<Rightarrow> AST \<Rightarrow> bool" where
  "sound_args n ast \<longleftrightarrow>
     (\<forall>args st es st'. parse_funcall_args n ast args st = Inr (es, st') \<longrightarrow>
        (\<exists>ts new. consumed st st' ts \<and> es = args @ new
           \<and> grammar_args (memory st) ast (stdio st) ts new))"

definition sound_funcall :: "nat \<Rightarrow> AST \<Rightarrow> bool" where
  "sound_funcall n ast \<longleftrightarrow>
     (\<forall>f st e st'. parse_funcall n ast f st = Inr (e, st') \<longrightarrow>
        tok_t f = TOK_SYM \<longrightarrow> tok_t (lexer_peek st) = TOK_LPAREN \<longrightarrow>
        (\<exists>ts. consumed st st' ts \<and> grammar_primary (memory st) ast (stdio st) (f # ts) e))"

definition sound_factor_loop :: "nat \<Rightarrow> AST \<Rightarrow> bool" where
  "sound_factor_loop n ast \<longleftrightarrow>
     (\<forall>ret st e st' ts0. parse_factor_loop n ast ret st = Inr (e, st') \<longrightarrow>
        grammar_factor (memory st) ast (stdio st) ts0 ret \<longrightarrow>
        (\<exists>ts. consumed st st' ts \<and> grammar_factor (memory st) ast (stdio st) (ts0 @ ts) e))"

definition sound_factor :: "nat \<Rightarrow> AST \<Rightarrow> bool" where
  "sound_factor n ast \<longleftrightarrow>
     (\<forall>st e st'. parse_factor n ast st = Inr (e, st') \<longrightarrow>
        (\<exists>ts. consumed st st' ts \<and> grammar_factor (memory st) ast (stdio st) ts e))"

definition sound_term_loop :: "nat \<Rightarrow> AST \<Rightarrow> bool" where
  "sound_term_loop n ast \<longleftrightarrow>
     (\<forall>ret st e st' ts0. parse_term_loop n ast ret st = Inr (e, st') \<longrightarrow>
        grammar_term (memory st) ast (stdio st) ts0 ret \<longrightarrow>
        (\<exists>ts. consumed st st' ts \<and> grammar_term (memory st) ast (stdio st) (ts0 @ ts) e))"

definition sound_term :: "nat \<Rightarrow> AST \<Rightarrow> bool" where
  "sound_term n ast \<longleftrightarrow>
     (\<forall>st e st'. parse_term n ast st = Inr (e, st') \<longrightarrow>
        (\<exists>ts. consumed st st' ts \<and> grammar_term (memory st) ast (stdio st) ts e))"

definition sound_comp_loop :: "nat \<Rightarrow> AST \<Rightarrow> bool" where
  "sound_comp_loop n ast \<longleftrightarrow>
     (\<forall>ret st e st' ts0. parse_comp_loop n ast ret st = Inr (e, st') \<longrightarrow>
        grammar_comp (memory st) ast (stdio st) ts0 ret \<longrightarrow>
        (\<exists>ts. consumed st st' ts \<and> grammar_comp (memory st) ast (stdio st) (ts0 @ ts) e))"

definition sound_comp :: "nat \<Rightarrow> AST \<Rightarrow> bool" where
  "sound_comp n ast \<longleftrightarrow>
     (\<forall>st e st'. parse_comp n ast st = Inr (e, st') \<longrightarrow>
        (\<exists>ts. consumed st st' ts \<and> grammar_comp (memory st) ast (stdio st) ts e))"

definition sound_expr :: "nat \<Rightarrow> AST \<Rightarrow> bool" where
  "sound_expr n ast \<longleftrightarrow>
     (\<forall>st e st'. parse_expr n ast st = Inr (e, st') \<longrightarrow>
        (\<exists>ts. consumed st st' ts \<and> grammar_comp (memory st) ast (stdio st) ts e))"

text \<open>
  \<open>le_res a b\<close>: the result \<open>b\<close> agrees with \<open>a\<close> unless \<open>a\<close> ran out of recursion bound.
  \<open>fuel_mono n m\<close>: raising the bound from \<open>n\<close> to \<open>m\<close> changes no result of the expression
  parser except \<open>OutOfFuel\<close>.
\<close>

definition le_res :: "failure + 'a \<Rightarrow> failure + 'a \<Rightarrow> bool" where
  "le_res a b \<longleftrightarrow> a = Inl OutOfFuel \<or> a = b"

definition fuel_mono :: "nat \<Rightarrow> nat \<Rightarrow> bool" where
  "fuel_mono n m \<longleftrightarrow>
     (\<forall>ast st. le_res (parse_primary n ast st) (parse_primary m ast st))
   \<and> (\<forall>ast args st. le_res (parse_funcall_args n ast args st) (parse_funcall_args m ast args st))
   \<and> (\<forall>ast f st. le_res (parse_funcall n ast f st) (parse_funcall m ast f st))
   \<and> (\<forall>ast ret st. le_res (parse_factor_loop n ast ret st) (parse_factor_loop m ast ret st))
   \<and> (\<forall>ast st. le_res (parse_factor n ast st) (parse_factor m ast st))
   \<and> (\<forall>ast ret st. le_res (parse_term_loop n ast ret st) (parse_term_loop m ast ret st))
   \<and> (\<forall>ast st. le_res (parse_term n ast st) (parse_term m ast st))
   \<and> (\<forall>ast ret st. le_res (parse_comp_loop n ast ret st) (parse_comp_loop m ast ret st))
   \<and> (\<forall>ast st. le_res (parse_comp n ast st) (parse_comp m ast st))
   \<and> (\<forall>ast st. le_res (parse_expr n ast st) (parse_expr m ast st))"

section \<open>Sample inputs\<close>

text \<open>
  Source texts at address 4096, each with its terminating NUL, and the tokens of a tokenizer
  that drops blanks and makes a line end a token after a name, a literal, a closing
  parenthesis or a type name. \<open>sample_state src b ts\<close> is the parser's state over the tokens
  \<open>ts\<close> of the text \<open>src\<close>, with \<open>b\<close> in the global \<^verbatim>\<open>src_base\<close>.
\<close>

definition tk :: "TokKind \<Rightarrow> int \<Rightarrow> 64 word \<Rightarrow> IntLitType \<Rightarrow> Token" where
  "tk k p n t = \<lparr>tok_t = k, tok_pos = \<lparr>pos_start = p, pos_sz = n\<rparr>, tok_intlit_type = t\<rparr>"

definition sample_buf :: "string \<Rightarrow> buffer" where
  "sample_buf src = \<lparr>buf_start = 4096, buf_bytes = src\<rparr>"

definition ex_io :: streams where
  "ex_io = \<lparr>err_stream = [], artifact_stream = []\<rparr>"

definition sample_state :: "string \<Rightarrow> int \<Rightarrow> Token list \<Rightarrow> pstate" where
  "sample_state src b ts =
     \<lparr>toks = ts, eof_pos = \<lparr>pos_start = 4096 + int (length src) - 1, pos_sz = 0\<rparr>,
      src_base = b, memory = sample_buf src, stdio = ex_io\<rparr>"

definition ex_ast :: AST where
  "ex_ast = \<lparr>ast_src_base = 4096, ast_fns = []\<rparr>"

text \<open>A function with parameters, a return type and one statement of each kind.\<close>

definition ex_src :: string where
  "ex_src = ''f(a i64, b i64) i64 {'' @ [newline] @ ''let x = a + b * c'' @ [newline] @ ''mut y: i64'' @ [newline] @ ''let z: u8 = 300u8'' @ [newline] @ ''return a - b - c == x == g(y, 12)'' @ [newline] @ ''}'' @ [newline] @ [CHR 0x00]"

definition ex_toks :: "Token list" where
  "ex_toks = [tk TOK_SYM 4096 1 INTLIT_I64_NONE,
      tk TOK_LPAREN 4097 1 INTLIT_I64_NONE,
      tk TOK_SYM 4098 1 INTLIT_I64_NONE,
      tk TOK_I64 4100 3 INTLIT_I64_NONE,
      tk TOK_COMMA 4103 1 INTLIT_I64_NONE,
      tk TOK_SYM 4105 1 INTLIT_I64_NONE,
      tk TOK_I64 4107 3 INTLIT_I64_NONE,
      tk TOK_RPAREN 4110 1 INTLIT_I64_NONE,
      tk TOK_I64 4112 3 INTLIT_I64_NONE,
      tk TOK_LCURLY 4116 1 INTLIT_I64_NONE,
      tk TOK_LET 4118 3 INTLIT_I64_NONE,
      tk TOK_SYM 4122 1 INTLIT_I64_NONE,
      tk TOK_EQ 4124 1 INTLIT_I64_NONE,
      tk TOK_SYM 4126 1 INTLIT_I64_NONE,
      tk TOK_ADD 4128 1 INTLIT_I64_NONE,
      tk TOK_SYM 4130 1 INTLIT_I64_NONE,
      tk TOK_MUL 4132 1 INTLIT_I64_NONE,
      tk TOK_SYM 4134 1 INTLIT_I64_NONE,
      tk TOK_NEWLINE 4135 1 INTLIT_I64_NONE,
      tk TOK_MUT 4136 3 INTLIT_I64_NONE,
      tk TOK_SYM 4140 1 INTLIT_I64_NONE,
      tk TOK_COLON 4141 1 INTLIT_I64_NONE,
      tk TOK_I64 4143 3 INTLIT_I64_NONE,
      tk TOK_NEWLINE 4146 1 INTLIT_I64_NONE,
      tk TOK_LET 4147 3 INTLIT_I64_NONE,
      tk TOK_SYM 4151 1 INTLIT_I64_NONE,
      tk TOK_COLON 4152 1 INTLIT_I64_NONE,
      tk TOK_U8 4154 2 INTLIT_I64_NONE,
      tk TOK_EQ 4157 1 INTLIT_I64_NONE,
      tk TOK_INT 4159 5 INTLIT_U8,
      tk TOK_NEWLINE 4164 1 INTLIT_I64_NONE,
      tk TOK_RETURN 4165 6 INTLIT_I64_NONE,
      tk TOK_SYM 4172 1 INTLIT_I64_NONE,
      tk TOK_SUB 4174 1 INTLIT_I64_NONE,
      tk TOK_SYM 4176 1 INTLIT_I64_NONE,
      tk TOK_SUB 4178 1 INTLIT_I64_NONE,
      tk TOK_SYM 4180 1 INTLIT_I64_NONE,
      tk TOK_DEQ 4182 2 INTLIT_I64_NONE,
      tk TOK_SYM 4185 1 INTLIT_I64_NONE,
      tk TOK_DEQ 4187 2 INTLIT_I64_NONE,
      tk TOK_SYM 4190 1 INTLIT_I64_NONE,
      tk TOK_LPAREN 4191 1 INTLIT_I64_NONE,
      tk TOK_SYM 4192 1 INTLIT_I64_NONE,
      tk TOK_COMMA 4193 1 INTLIT_I64_NONE,
      tk TOK_INT 4195 2 INTLIT_I64_NONE,
      tk TOK_RPAREN 4197 1 INTLIT_I64_NONE,
      tk TOK_NEWLINE 4198 1 INTLIT_I64_NONE,
      tk TOK_RCURLY 4199 1 INTLIT_I64_NONE]"

definition ex_buf :: buffer where
  "ex_buf = sample_buf ex_src"

definition ex_state :: "int \<Rightarrow> Token list \<Rightarrow> pstate" where
  "ex_state b ts = sample_state ex_src b ts"

text \<open>A function with one parameter and a return type.\<close>

definition typed_src :: string where
  "typed_src = ''id(a i64) i64 {'' @ [newline] @ ''return a'' @ [newline] @ ''}'' @ [newline] @ [CHR 0x00]"

definition typed_toks :: "Token list" where
  "typed_toks = [tk TOK_SYM 4096 2 INTLIT_I64_NONE,
      tk TOK_LPAREN 4098 1 INTLIT_I64_NONE,
      tk TOK_SYM 4099 1 INTLIT_I64_NONE,
      tk TOK_I64 4101 3 INTLIT_I64_NONE,
      tk TOK_RPAREN 4104 1 INTLIT_I64_NONE,
      tk TOK_I64 4106 3 INTLIT_I64_NONE,
      tk TOK_LCURLY 4110 1 INTLIT_I64_NONE,
      tk TOK_RETURN 4112 6 INTLIT_I64_NONE,
      tk TOK_SYM 4119 1 INTLIT_I64_NONE,
      tk TOK_NEWLINE 4120 1 INTLIT_I64_NONE,
      tk TOK_RCURLY 4121 1 INTLIT_I64_NONE]"

text \<open>A function without return type and with an empty body.\<close>

definition void_src :: string where
  "void_src = ''h() {'' @ [newline] @ ''}'' @ [newline] @ [CHR 0x00]"

definition void_toks :: "Token list" where
  "void_toks = [tk TOK_SYM 4096 1 INTLIT_I64_NONE,
      tk TOK_LPAREN 4097 1 INTLIT_I64_NONE,
      tk TOK_RPAREN 4098 1 INTLIT_I64_NONE,
      tk TOK_LCURLY 4100 1 INTLIT_I64_NONE,
      tk TOK_RCURLY 4102 1 INTLIT_I64_NONE]"

text \<open>A \<^verbatim>\<open>let\<close> with neither type nor initializer, on the second line of the text.\<close>

definition bare_src :: string where
  "bare_src = ''k() {'' @ [newline] @ ''let x'' @ [newline] @ ''}'' @ [newline] @ [CHR 0x00]"

definition bare_toks :: "Token list" where
  "bare_toks = [tk TOK_SYM 4096 1 INTLIT_I64_NONE,
      tk TOK_LPAREN 4097 1 INTLIT_I64_NONE,
      tk TOK_RPAREN 4098 1 INTLIT_I64_NONE,
      tk TOK_LCURLY 4100 1 INTLIT_I64_NONE,
      tk TOK_LET 4102 3 INTLIT_I64_NONE,
      tk TOK_SYM 4106 1 INTLIT_I64_NONE,
      tk TOK_NEWLINE 4107 1 INTLIT_I64_NONE,
      tk TOK_RCURLY 4108 1 INTLIT_I64_NONE]"

text \<open>The same statement on the first line of the text.\<close>

definition first_src :: string where
  "first_src = ''k() {let x'' @ [newline] @ ''}'' @ [newline] @ [CHR 0x00]"

definition first_toks :: "Token list" where
  "first_toks = [tk TOK_SYM 4096 1 INTLIT_I64_NONE,
      tk TOK_LPAREN 4097 1 INTLIT_I64_NONE,
      tk TOK_RPAREN 4098 1 INTLIT_I64_NONE,
      tk TOK_LCURLY 4100 1 INTLIT_I64_NONE,
      tk TOK_LET 4101 3 INTLIT_I64_NONE,
      tk TOK_SYM 4105 1 INTLIT_I64_NONE,
      tk TOK_NEWLINE 4106 1 INTLIT_I64_NONE,
      tk TOK_RCURLY 4107 1 INTLIT_I64_NONE]"

text \<open>A text whose last line has no line end: a stray parenthesis, then the NUL.\<close>

definition open_src :: string where
  "open_src = ''h() {'' @ [newline] @ '')'' @ [CHR 0x00]"

definition open_toks :: "Token list" where
  "open_toks = [tk TOK_SYM 4096 1 INTLIT_I64_NONE,
      tk TOK_LPAREN 4097 1 INTLIT_I64_NONE,
      tk TOK_RPAREN 4098 1 INTLIT_I64_NONE,
      tk TOK_LCURLY 4100 1 INTLIT_I64_NONE,
      tk TOK_RPAREN 4102 1 INTLIT_I64_NONE]"

text \<open>A line with the literals \<^verbatim>\<open>300u8\<close> and \<^verbatim>\<open>12\<close>.\<close>

definition lit_buf :: buffer where
  "lit_buf = \<lparr>buf_start = 4096, buf_bytes = ''300u8 + 12'' @ [newline, CHR 0x00]\<rparr>"

section \<open>Properties of the value counter\<close>

lemma sint_succ:
  fixes reg :: "64 word"
  assumes "sint reg \<noteq> INT64_MAX"
  shows "sint (reg + 1) = sint reg + 1"
proof -
  have "sint reg < 2 ^ 63" using sint_lt [of reg] by simp
  with assms have lt: "sint reg + 1 < 2 ^ 63" by (simp add: INT64_MAX_def)
  have ge: "- (2 ^ 63) \<le> sint reg" using sint_ge [of reg] by simp
  show ?thesis
    using lt ge by (simp add: sint_word_ariths signed_take_bit_int_eq_self)
qed

lemma next_vn_calls_lower:
  "next_vn_calls n reg = Some (vs, reg') \<Longrightarrow> \<forall>v \<in> set vs. sint reg \<le> sint v"
proof (induction n arbitrary: reg vs reg')
  case 0
  then show ?case by simp
next
  case (Suc n)
  then show ?case
    by (fastforce simp: next_vn_def sint_succ split: if_splits option.splits)
qed

lemma next_vn_calls_sorted:
  "next_vn_calls n reg = Some (vs, reg') \<Longrightarrow> sorted_wrt (\<lambda>a b. sint a < sint b) vs"
proof (induction n arbitrary: reg vs reg')
  case 0
  then show ?case by simp
next
  case (Suc n)
  from Suc.prems obtain vs' where ne: "sint reg \<noteq> INT64_MAX"
    and rest: "next_vn_calls n (reg + 1) = Some (vs', reg')" and vs: "vs = reg # vs'"
    by (auto simp: next_vn_def split: if_splits option.splits)
  have "\<forall>v \<in> set vs'. sint (reg + 1) \<le> sint v"
    using next_vn_calls_lower [OF rest] .
  then have "\<forall>v \<in> set vs'. sint reg < sint v"
    using sint_succ [OF ne] by auto
  with Suc.IH [OF rest] vs show ?case by simp
qed

lemma next_vn_calls_total:
  "sint reg + int n \<le> INT64_MAX \<Longrightarrow>
   next_vn_calls n reg = Some (map (\<lambda>k. reg + of_nat k) [0..<n], reg + of_nat n)"
proof (induction n arbitrary: reg)
  case 0
  then show ?case by simp
next
  case (Suc n)
  then have ne: "sint reg \<noteq> INT64_MAX" by auto
  have "sint (reg + 1) + int n \<le> INT64_MAX" using Suc.prems sint_succ [OF ne] by simp
  from Suc.IH [OF this] ne show ?case
    by (simp add: next_vn_def upt_conv_Cons map_Suc_upt [symmetric] add.assoc del: upt_Suc)
qed

text \<open>
  Claim C3. In any run of calls to \<open>next_vn\<close>, a later call returns a strictly greater
  identifier than every earlier call, so no identifier is issued twice; and from the
  initial counter 1 every run of fewer than \<open>INT64_MAX\<close> calls does return, the k-th
  call returning k.
\<close>

theorem next_vn_strictly_increasing:
  "(next_vn_calls n reg = Some (vs, reg') \<longrightarrow>
      (\<forall>i j. i < j \<and> j < length vs \<longrightarrow> sint (vs ! i) < sint (vs ! j)) \<and> distinct vs)
   \<and> (int m < INT64_MAX \<longrightarrow>
      next_vn_calls m next_vn_init = Some (map (\<lambda>k. 1 + of_nat k) [0..<m], 1 + of_nat m))"
proof (intro conjI impI)
  assume run: "next_vn_calls n reg = Some (vs, reg')"
  have sorted: "sorted_wrt (\<lambda>a b. sint a < sint b) vs"
    using next_vn_calls_sorted [OF run] .
  then show "\<forall>i j. i < j \<and> j < length vs \<longrightarrow> sint (vs ! i) < sint (vs ! j)"
    by (simp add: sorted_wrt_iff_nth_less)
  have "sorted_wrt (\<lambda>a b. a \<noteq> b) vs"
    by (rule sorted_wrt_mono_rel [OF _ sorted]) auto
  then have ne: "\<And>i j. i < j \<Longrightarrow> j < length vs \<Longrightarrow> vs ! i \<noteq> vs ! j"
    by (simp add: sorted_wrt_iff_nth_less)
  show "distinct vs"
    unfolding distinct_conv_nth
  proof (intro allI impI)
    fix i j
    assume "i < length vs" "j < length vs" "i \<noteq> j"
    then show "vs ! i \<noteq> vs ! j"
      using ne [of i j] ne [of j i] by (cases "i < j") auto
  qed
next
  assume "int m < INT64_MAX"
  then have "sint next_vn_init + int m \<le> INT64_MAX" by (simp add: next_vn_init_def)
  from next_vn_calls_total [OF this]
  show "next_vn_calls m next_vn_init = Some (map (\<lambda>k. 1 + of_nat k) [0..<m], 1 + of_nat m)"
    by (simp add: next_vn_init_def)
qed

theorem next_vn_strictly_increasing_witness:
  "next_vn_calls 3 next_vn_init = Some ([1, 2, 3], 4)
   \<and> sint (([1, 2, 3] :: 64 word list) ! 0) < sint (([1, 2, 3] :: 64 word list) ! 2)
   \<and> distinct ([1, 2, 3] :: 64 word list)"
proof -
  have run: "next_vn_calls 3 next_vn_init = Some ([1, 2, 3], 4)"
    by (simp add: next_vn_def next_vn_init_def INT64_MAX_def numeral_3_eq_3)
  have small: "int 3 < INT64_MAX" by (simp add: INT64_MAX_def)
  from next_vn_strictly_increasing [of 3 next_vn_init "[1, 2, 3]" 4 3] run small
  have inc: "\<forall>i j. i < j \<and> j < length ([1, 2, 3] :: 64 word list) \<longrightarrow>
      sint (([1, 2, 3] :: 64 word list) ! i) < sint (([1, 2, 3] :: 64 word list) ! j)"
    and dist: "distinct ([1, 2, 3] :: 64 word list)"
    by blast+
  from inc have "sint (([1, 2, 3] :: 64 word list) ! 0) < sint (([1, 2, 3] :: 64 word list) ! 2)"
    by simp
  with run dist show ?thesis by blast
qed


section \<open>Properties of the arena\<close>

lemma chunk_step:
  fixes c k n :: nat
  assumes "0 < c" and "c * k < n"
  shows "c * k + c \<le> c * ((n + (c - 1)) div c)"
proof -
  have "c * (k + 1) \<le> n + (c - 1)" using assms by (simp add: algebra_simps)
  then have "(c * (k + 1)) div c \<le> (n + (c - 1)) div c" by (rule div_le_mono)
  then have "k + 1 \<le> (n + (c - 1)) div c" using assms(1) by simp
  then have "c * (k + 1) \<le> c * ((n + (c - 1)) div c)" by (rule mult_le_mono2)
  then show ?thesis by (simp add: algebra_simps)
qed

lemma chunk_stop:
  fixes c k n :: nat
  assumes "0 < c" and "n \<le> c * k" and "c * k \<le> c * ((n + (c - 1)) div c)"
  shows "c * k = c * ((n + (c - 1)) div c)"
proof -
  have "(n + (c - 1)) div c \<le> (c * k + (c - 1)) div c"
    using assms(2) by (intro div_le_mono) simp
  also have "\<dots> = k + (c - 1) div c"
    using assms(1) by (subst div_mult_self4) simp_all
  also have "\<dots> = k" using assms(1) by simp
  finally have "c * ((n + (c - 1)) div c) \<le> c * k" by (rule mult_le_mono2)
  with assms(3) show ?thesis by (rule le_antisym)
qed

lemma round_up_chunk_bound:
  assumes "n \<le> 2 ^ 64 - 4096"
  shows "round_up_chunk n \<le> 2 ^ 64 - 4096"
proof -
  have "(n + 4095) div 4096 \<le> (2 ^ 64 - 4096 + 4095) div (4096::nat)"
    using assms by (intro div_le_mono) simp
  also have "\<dots> = 2 ^ 52 - 1" by simp
  finally have "4096 * ((n + 4095) div 4096) \<le> 4096 * (2 ^ 52 - 1 :: nat)"
    by (rule mult_le_mono2)
  then show ?thesis by (simp add: round_up_chunk_def)
qed

lemma round_up_chunk_ge: "n \<le> round_up_chunk n"
proof (cases "n = 0")
  case True
  then show ?thesis by simp
next
  case False
  then have "4096 * 0 < n" by simp
  from chunk_step [OF _ this] have "4096 \<le> round_up_chunk n" by (simp add: round_up_chunk_def)
  have "n + 4095 = 4096 * ((n + 4095) div 4096) + (n + 4095) mod 4096" by simp
  moreover have "(n + 4095) mod 4096 < 4096" by simp
  ultimately show ?thesis unfolding round_up_chunk_def by linarith
qed


lemma size_needed_loop_terminates:
  assumes req: "unat requested \<le> 2 ^ 64 - 4096"
    and mult: "unat ret = 4096 * k"
    and le: "unat ret \<le> round_up_chunk (unat requested)"
  shows "size_needed_loop ret requested = Some (of_nat (round_up_chunk (unat requested)))"
  using mult le
proof (induction "round_up_chunk (unat requested) - unat ret" arbitrary: ret k rule: less_induct)
  case less
  have ru: "round_up_chunk (unat requested) \<le> 2 ^ 64 - 4096"
    using req by (rule round_up_chunk_bound)
  show ?case
  proof (cases "ret < requested")
    case True
    then have lt: "4096 * k < unat requested" by (simp add: word_less_nat_alt less.prems(1))
    have step: "unat ret + 4096 \<le> round_up_chunk (unat requested)"
      using chunk_step [OF _ lt] by (simp add: round_up_chunk_def less.prems(1))
    have u: "unat (ret + POOL_CHUNK_SZ) = unat ret + 4096"
    proof -
      have "unat ret + 4096 < 2 ^ 64" using step ru by simp
      then show ?thesis by (simp add: POOL_CHUNK_SZ_def unat_word_ariths)
    qed
    have "size_needed_loop (ret + POOL_CHUNK_SZ) requested
            = Some (of_nat (round_up_chunk (unat requested)))"
    proof (rule less.hyps)
      show "round_up_chunk (unat requested) - unat (ret + POOL_CHUNK_SZ)
              < round_up_chunk (unat requested) - unat ret"
        using u step by simp
      show "unat (ret + POOL_CHUNK_SZ) = 4096 * (k + 1)" using u less.prems(1) by simp
      show "unat (ret + POOL_CHUNK_SZ) \<le> round_up_chunk (unat requested)" using u step by simp
    qed
    with True show ?thesis by (subst size_needed_loop.simps) simp
  next
    case False
    then have ge: "unat requested \<le> 4096 * k" by (simp add: word_less_nat_alt less.prems(1))
    have "4096 * k = round_up_chunk (unat requested)"
      unfolding round_up_chunk_def
      using chunk_stop [of 4096 "unat requested" k] ge less.prems
      by (simp add: round_up_chunk_def)
    then have "unat ret = round_up_chunk (unat requested)"
      using less.prems(1) by simp
    then have "(of_nat (unat ret) :: 64 word) = of_nat (round_up_chunk (unat requested))"
      by (rule arg_cong)
    then have "ret = of_nat (round_up_chunk (unat requested))" by simp
    with False show ?thesis by (subst size_needed_loop.simps) simp
  qed
qed

lemma size_needed_eq:
  assumes "unat requested \<le> 2 ^ 64 - 4096"
  shows "size_needed requested = Some (of_nat (round_up_chunk (unat requested)))"
  unfolding size_needed_def
  by (rule size_needed_loop_terminates [OF assms, of 0 0]) simp_all


lemma round_up_chunk_le: "round_up_chunk n \<le> n + 4095"
  unfolding round_up_chunk_def by simp

lemma mempool_init_wf:
  assumes "mempool_init (Some b) True = Inr p" and "b \<noteq> 0" and "unat b + 2 ^ 32 \<le> 2 ^ 64"
  shows "pool_wf p"
  using assms
  by (auto simp: mempool_init_def pool_wf_def POOL_MAX_SZ_def POOL_CHUNK_SZ_def NULL_def)


lemma mempool_alloc_step:
  assumes wf: "pool_wf p" and ok: "amount_ok amount"
    and res: "mempool_alloc p amount = Inr (ptr, p')"
  shows "pool_wf p' \<and> ptr = pool_base p + pool_size p
         \<and> unat ptr = unat (pool_base p) + unat (pool_size p)
         \<and> unat (pool_size p') = unat (pool_size p) + unat amount
         \<and> pool_base p' = pool_base p
         \<and> pool_rw p \<subseteq> pool_rw p'"
proof -
  have sz: "unat (pool_size p) < unat (pool_alloc p)" and al: "unat (pool_alloc p) \<le> 2 ^ 32"
    and bs: "unat (pool_base p) + 2 ^ 32 \<le> 2 ^ 64"
    and rw: "pool_rw p = {0 ..< unat (pool_alloc p)}" and mp: "pool_mapped p"
    and nn: "pool_base p \<noteq> NULL"
    using wf by (simp_all add: pool_wf_def POOL_MAX_SZ_def)
  have am: "unat amount + 2 ^ 32 + 4096 \<le> 2 ^ 64"
    using ok by (simp add: amount_ok_def POOL_MAX_SZ_def POOL_CHUNK_SZ_def)
  have usum: "unat (pool_size p + amount) = unat (pool_size p) + unat amount"
    by (rule unat_add_lem [THEN iffD1]) (use sz al am in simp)
  have usum1: "unat (pool_size p + amount + 1) = unat (pool_size p) + unat amount + 1"
  proof -
    have "unat (pool_size p + amount + 1) = unat (pool_size p + amount) + unat (1 :: 64 word)"
      by (rule unat_add_lem [THEN iffD1]) (use usum sz al am in simp)
    then show ?thesis using usum by simp
  qed
  have uptr: "unat (pool_base p + pool_size p) = unat (pool_base p) + unat (pool_size p)"
    by (rule unat_add_lem [THEN iffD1]) (use sz al bs in simp)
  show ?thesis
  proof (cases "pool_size p + amount + 1 \<ge> pool_alloc p")
    case False
    then have small: "unat (pool_size p) + unat amount + 1 < unat (pool_alloc p)"
      using usum1 by (simp add: word_le_nat_alt)
    from False res have p': "p' = p\<lparr>pool_size := pool_size p + amount\<rparr>"
      and ptr: "ptr = pool_base p + pool_size p"
      by (auto simp: mempool_alloc_def)
    show ?thesis
      using p' ptr uptr usum small mp nn bs al rw
      by (simp add: pool_wf_def POOL_MAX_SZ_def)
  next
    case True
    have req: "unat amount \<le> 2 ^ 64 - 4096" using am by simp
    define needed :: "64 word" where "needed = of_nat (round_up_chunk (unat amount))"
    have sn: "size_needed amount = Some needed"
      unfolding needed_def by (rule size_needed_eq [OF req])
    have un: "unat needed = round_up_chunk (unat amount)"
      unfolding needed_def using round_up_chunk_bound [OF req] by (simp add: unat_of_nat)
    have nle: "unat needed \<le> unat amount + 4095" using un round_up_chunk_le by simp
    have nge: "unat amount \<le> unat needed" using un round_up_chunk_ge by simp
    have ualloc: "unat (pool_alloc p + needed) = unat (pool_alloc p) + unat needed"
      by (rule unat_add_lem [THEN iffD1]) (use al nle am in simp)
    from True res sn have fits: "\<not> pool_alloc p + needed > POOL_MAX_SZ"
      by (auto simp: mempool_alloc_def split: if_splits)
    then have fit: "unat (pool_alloc p) + unat needed \<le> 2 ^ 32"
      using ualloc by (simp add: word_less_nat_alt POOL_MAX_SZ_def)
    from True res sn fits have
      p': "p' = p\<lparr>pool_rw := pool_rw p \<union>
                    {unat (pool_alloc p) ..< unat (pool_alloc p) + unat needed},
                  pool_alloc := pool_alloc p + needed,
                  pool_size := pool_size p + amount\<rparr>"
      and ptr: "ptr = pool_base p + pool_size p"
      by (auto simp: mempool_alloc_def)
    have "{0 ..< unat (pool_alloc p)} \<union> {unat (pool_alloc p) ..< unat (pool_alloc p) + unat needed}
            = {0 ..< unat (pool_alloc p) + unat needed}"
      by (rule ivl_disj_un_two) simp_all
    then have rw': "pool_rw p' = {0 ..< unat (pool_alloc p) + unat needed}"
      by (simp add: p' rw)
    show ?thesis
      using p' ptr uptr usum ualloc fit mp nn bs sz nge rw rw'
      by (simp add: pool_wf_def POOL_MAX_SZ_def)
  qed
qed


lemma mempool_alloc_region:
  assumes wf: "pool_wf p" and ok: "amount_ok amount"
    and res: "mempool_alloc p amount = Inr (ptr, p')"
  shows "{unat (pool_size p) ..< unat (pool_size p) + unat amount} \<subseteq> pool_rw p'"
proof -
  from mempool_alloc_step [OF wf ok res]
  have wf': "pool_wf p'" and sz: "unat (pool_size p') = unat (pool_size p) + unat amount"
    by blast+
  from wf' have "unat (pool_size p') < unat (pool_alloc p')"
    and "pool_rw p' = {0 ..< unat (pool_alloc p')}"
    by (simp_all add: pool_wf_def)
  with sz show ?thesis by auto
qed

lemma mempool_alloc_returns:
  assumes ok: "amount_ok amount"
  shows "mempool_alloc p amount = Inl (Internal ''out of memory in mmap pool'')
         \<or> (\<exists>ptr p'. mempool_alloc p amount = Inr (ptr, p'))"
proof -
  have "unat amount \<le> 2 ^ 64 - 4096"
    using ok by (simp add: amount_ok_def POOL_MAX_SZ_def POOL_CHUNK_SZ_def)
  from size_needed_eq [OF this] show ?thesis
    by (simp add: mempool_alloc_def)
qed

lemma mempool_allocs_returns:
  assumes "\<forall>a \<in> set amounts. amount_ok a"
  shows "mempool_allocs p amounts = Inl (Internal ''out of memory in mmap pool'')
         \<or> (\<exists>rs p'. mempool_allocs p amounts = Inr (rs, p'))"
  using assms
proof (induction amounts arbitrary: p)
  case Nil
  then show ?case by simp
next
  case (Cons a amounts)
  then have ok: "amount_ok a" and rest: "\<forall>a \<in> set amounts. amount_ok a" by simp_all
  from mempool_alloc_returns [OF ok, of p] show ?case
  proof
    assume "mempool_alloc p a = Inl (Internal ''out of memory in mmap pool'')"
    then show ?thesis by simp
  next
    assume "\<exists>ptr p'. mempool_alloc p a = Inr (ptr, p')"
    then obtain ptr p1 where a: "mempool_alloc p a = Inr (ptr, p1)" by blast
    from Cons.IH [OF rest, of p1] a show ?thesis by auto
  qed
qed

lemma mempool_allocs_inv:
  assumes "pool_wf p" and "\<forall>a \<in> set amounts. amount_ok a"
    and "mempool_allocs p amounts = Inr (rs, p')"
  shows "pool_wf p' \<and> pool_base p' = pool_base p \<and> pool_rw p \<subseteq> pool_rw p'
         \<and> unat (pool_size p') = unat (pool_size p) + sum_list (map unat amounts)
         \<and> (\<forall>r \<in> set rs. unat (pool_base p) + unat (pool_size p) \<le> unat (fst r)
               \<and> unat (fst r) + unat (snd r) \<le> unat (pool_base p) + unat (pool_size p')
               \<and> {unat (fst r) - unat (pool_base p) ..<
                      unat (fst r) - unat (pool_base p) + unat (snd r)} \<subseteq> pool_rw p')
         \<and> sorted_wrt (\<lambda>r s. unat (fst r) + unat (snd r) \<le> unat (fst s)) rs"
  using assms
proof (induction amounts arbitrary: p rs)
  case Nil
  then show ?case by simp
next
  case (Cons a amounts)
  from Cons.prems(2) have ok: "amount_ok a" and rest: "\<forall>a \<in> set amounts. amount_ok a"
    by simp_all
  from Cons.prems(3) obtain ptr p1 rs1 where a: "mempool_alloc p a = Inr (ptr, p1)"
    and r: "mempool_allocs p1 amounts = Inr (rs1, p')" and rs: "rs = (ptr, a) # rs1"
    by (auto split: sum.splits)
  from mempool_alloc_step [OF Cons.prems(1) ok a]
  have wf1: "pool_wf p1" and ptr: "unat ptr = unat (pool_base p) + unat (pool_size p)"
    and sz1: "unat (pool_size p1) = unat (pool_size p) + unat a"
    and b1: "pool_base p1 = pool_base p" and rw1: "pool_rw p \<subseteq> pool_rw p1"
    by blast+
  have reg: "{unat (pool_size p) ..< unat (pool_size p) + unat a} \<subseteq> pool_rw p1"
    by (rule mempool_alloc_region [OF Cons.prems(1) ok a])
  from Cons.IH [OF wf1 rest r]
  have wf': "pool_wf p'" and b': "pool_base p' = pool_base p1" and rw': "pool_rw p1 \<subseteq> pool_rw p'"
    and sz': "unat (pool_size p') = unat (pool_size p1) + sum_list (map unat amounts)"
    and regs: "\<forall>r \<in> set rs1. unat (pool_base p1) + unat (pool_size p1) \<le> unat (fst r)
               \<and> unat (fst r) + unat (snd r) \<le> unat (pool_base p1) + unat (pool_size p')
               \<and> {unat (fst r) - unat (pool_base p1) ..<
                      unat (fst r) - unat (pool_base p1) + unat (snd r)} \<subseteq> pool_rw p'"
    and srt: "sorted_wrt (\<lambda>r s. unat (fst r) + unat (snd r) \<le> unat (fst s)) rs1"
    by blast+
  have first: "unat (fst (ptr, a)) - unat (pool_base p) = unat (pool_size p)"
    using ptr by simp
  have "{unat (fst (ptr, a)) - unat (pool_base p) ..<
         unat (fst (ptr, a)) - unat (pool_base p) + unat (snd (ptr, a))} \<subseteq> pool_rw p'"
    using reg rw' unfolding first by simp
  moreover have "\<forall>r \<in> set rs1. unat (fst (ptr, a)) + unat (snd (ptr, a)) \<le> unat (fst r)"
    using regs ptr sz1 b1 by fastforce
  moreover have "\<forall>r \<in> set rs1. unat (pool_base p) + unat (pool_size p) \<le> unat (fst r)"
    using regs sz1 b1 by fastforce
  ultimately show ?case
    using wf' b' b1 rw1 rw' sz' sz1 regs srt rs ptr by (simp add: subset_trans)
qed


lemma mempool_allocs_append:
  "mempool_allocs p (as1 @ as2) = Inr (rs, p') \<Longrightarrow>
   \<exists>rs1 rs2 p1. mempool_allocs p as1 = Inr (rs1, p1)
      \<and> mempool_allocs p1 as2 = Inr (rs2, p') \<and> rs = rs1 @ rs2"
proof (induction as1 arbitrary: p rs)
  case Nil
  then show ?case by simp
next
  case (Cons a as1)
  from Cons.prems obtain ptr p1 rs' where a: "mempool_alloc p a = Inr (ptr, p1)"
    and r: "mempool_allocs p1 (as1 @ as2) = Inr (rs', p')" and rs: "rs = (ptr, a) # rs'"
    by (auto split: sum.splits)
  from Cons.IH [OF r] a rs show ?case by auto
qed

text \<open>
  Claim C9, amended. On a pool as \<^verbatim>\<open>mempool_init\<close> leaves it, for every run of
  \<^verbatim>\<open>mempool_alloc\<close> calls whose amounts cannot wrap the allocator's 64-bit sums
  (\<open>amount_ok\<close>): the run returns or stops the process with the out-of-memory error (it
  never hangs); and when it returns, the used size never decreased at any point of the
  run, the pool's base address, its mapping and every committed byte are kept, the
  regions handed out are pairwise disjoint (each ends at or before the start of every
  later one), and each lies within the committed prefix, which is exactly the readable
  and writable part. \<^verbatim>\<open>mempool_alloc\<close> stores nothing, so no contents move or change.
  The release is \<^verbatim>\<open>mempool_deinit\<close>: it unmaps the whole pool at once.
\<close>

theorem mempool_growth_only:
  assumes wf: "pool_wf p" and ok: "\<forall>a \<in> set amounts. amount_ok a"
  shows "(mempool_allocs p amounts = Inl (Internal ''out of memory in mmap pool'')
          \<or> (\<exists>rs p'. mempool_allocs p amounts = Inr (rs, p')))
    \<and> (\<forall>rs p'. mempool_allocs p amounts = Inr (rs, p') \<longrightarrow>
          (\<forall>as1 as2 rs1 p1. amounts = as1 @ as2 \<and> mempool_allocs p as1 = Inr (rs1, p1) \<longrightarrow>
              unat (pool_size p) \<le> unat (pool_size p1)
              \<and> unat (pool_size p1) \<le> unat (pool_size p'))
          \<and> pool_base p' = pool_base p \<and> pool_mapped p' \<and> pool_rw p \<subseteq> pool_rw p'
          \<and> pool_rw p' = {0 ..< unat (pool_alloc p')}
          \<and> (\<forall>i j. i < j \<and> j < length rs \<longrightarrow>
                unat (fst (rs ! i)) + unat (snd (rs ! i)) \<le> unat (fst (rs ! j)))
          \<and> (\<forall>r \<in> set rs. unat (pool_base p) \<le> unat (fst r)
                \<and> {unat (fst r) - unat (pool_base p) ..<
                       unat (fst r) - unat (pool_base p) + unat (snd r)} \<subseteq> pool_rw p'))
    \<and> (\<forall>q. mempool_deinit True p = Inr q \<longrightarrow>
          \<not> pool_mapped q \<and> pool_rw q = {} \<and> pool_base q = NULL)"
proof (intro conjI allI impI)
  show "mempool_allocs p amounts = Inl (Internal ''out of memory in mmap pool'')
        \<or> (\<exists>rs p'. mempool_allocs p amounts = Inr (rs, p'))"
    by (rule mempool_allocs_returns [OF ok])
next
  fix rs p' as1 as2 rs1 p1
  assume run: "mempool_allocs p amounts = Inr (rs, p')"
    and split: "amounts = as1 @ as2 \<and> mempool_allocs p as1 = Inr (rs1, p1)"
  from run split obtain rs2 where r2: "mempool_allocs p1 as2 = Inr (rs2, p')"
    using mempool_allocs_append [of p as1 as2 rs p'] by auto
  have ok1: "\<forall>a \<in> set as1. amount_ok a" and ok2: "\<forall>a \<in> set as2. amount_ok a"
    using ok split by auto
  from split have r1: "mempool_allocs p as1 = Inr (rs1, p1)" by simp
  from mempool_allocs_inv [OF wf ok1 r1]
  have wf1: "pool_wf p1"
    and s1: "unat (pool_size p1) = unat (pool_size p) + sum_list (map unat as1)"
    by blast+
  from mempool_allocs_inv [OF wf1 ok2 r2]
  have s2: "unat (pool_size p') = unat (pool_size p1) + sum_list (map unat as2)"
    by blast
  show "unat (pool_size p) \<le> unat (pool_size p1)" using s1 by simp
  show "unat (pool_size p1) \<le> unat (pool_size p')" using s2 by simp
next
  fix rs p'
  assume run: "mempool_allocs p amounts = Inr (rs, p')"
  note inv = mempool_allocs_inv [OF wf ok run]
  from inv have wf': "pool_wf p'" by blast
  from inv show "pool_base p' = pool_base p" by blast
  from wf' show "pool_mapped p'" by (simp add: pool_wf_def)
  from inv show "pool_rw p \<subseteq> pool_rw p'" by blast
  from wf' show "pool_rw p' = {0 ..< unat (pool_alloc p')}" by (simp add: pool_wf_def)
  from inv have "sorted_wrt (\<lambda>r s. unat (fst r) + unat (snd r) \<le> unat (fst s)) rs" by blast
  then show "\<And>i j. i < j \<and> j < length rs \<Longrightarrow>
      unat (fst (rs ! i)) + unat (snd (rs ! i)) \<le> unat (fst (rs ! j))"
    by (simp add: sorted_wrt_iff_nth_less)
  from inv have regs: "\<forall>r \<in> set rs. unat (pool_base p) + unat (pool_size p) \<le> unat (fst r)
               \<and> unat (fst r) + unat (snd r) \<le> unat (pool_base p) + unat (pool_size p')
               \<and> {unat (fst r) - unat (pool_base p) ..<
                      unat (fst r) - unat (pool_base p) + unat (snd r)} \<subseteq> pool_rw p'"
    by blast
  show "\<forall>r \<in> set rs. unat (pool_base p) \<le> unat (fst r)
                \<and> {unat (fst r) - unat (pool_base p) ..<
                       unat (fst r) - unat (pool_base p) + unat (snd r)} \<subseteq> pool_rw p'"
  proof
    fix r
    assume "r \<in> set rs"
    with regs have "unat (pool_base p) + unat (pool_size p) \<le> unat (fst r)"
      and "{unat (fst r) - unat (pool_base p) ..<
           unat (fst r) - unat (pool_base p) + unat (snd r)} \<subseteq> pool_rw p'"
      by blast+
    then show "unat (pool_base p) \<le> unat (fst r)
                \<and> {unat (fst r) - unat (pool_base p) ..<
                       unat (fst r) - unat (pool_base p) + unat (snd r)} \<subseteq> pool_rw p'"
      by simp
  qed
next
  fix q
  assume "mempool_deinit True p = Inr q"
  then have q: "q = p\<lparr>pool_base := NULL, pool_mapped := False, pool_rw := {}\<rparr>"
    by (simp add: mempool_deinit_def)
  show "\<not> pool_mapped q" "pool_rw q = {}" "pool_base q = NULL" using q by simp_all
qed

lemma pool_example_wf:
  "pool_wf \<lparr>pool_base = 65536, pool_size = 0, pool_alloc = 4096,
            pool_mapped = True, pool_rw = {0 ..< 4096}\<rparr>"
  by (simp add: pool_wf_def POOL_MAX_SZ_def NULL_def)

lemma size_needed_5000: "size_needed 5000 = Some 8192"
  using size_needed_eq [of 5000] by (simp add: round_up_chunk_def)

lemma pool_example_run:
  "mempool_allocs \<lparr>pool_base = 65536, pool_size = 0, pool_alloc = 4096,
                    pool_mapped = True, pool_rw = {0 ..< 4096}\<rparr> [100, 5000]
   = Inr ([(65536, 100), (65636, 5000)],
          \<lparr>pool_base = 65536, pool_size = 5100, pool_alloc = 12288,
           pool_mapped = True, pool_rw = {0 ..< 4096} \<union> {4096 ..< 12288}\<rparr>)"
  by (simp add: mempool_alloc_def size_needed_5000 POOL_MAX_SZ_def)

text \<open>
  The claim as stated, for every run of calls, fails where a sum wraps: after 100 bytes, a
  request of \<open>2^64 - 50\<close> bytes is granted without growing the pool, the used size drops
  from 100 to 50, the region handed out is not within the committed 4096 bytes, and the
  next region (at offset 50) overlaps the first.
\<close>

theorem mempool_wraparound_counterexample:
  "mempool_init (Some 65536) True
     = Inr \<lparr>pool_base = 65536, pool_size = 0, pool_alloc = 4096,
            pool_mapped = True, pool_rw = {0 ..< 4096}\<rparr>
   \<and> mempool_allocs \<lparr>pool_base = 65536, pool_size = 0, pool_alloc = 4096,
                       pool_mapped = True, pool_rw = {0 ..< 4096}\<rparr> [100]
     = Inr ([(65536, 100)],
            \<lparr>pool_base = 65536, pool_size = 100, pool_alloc = 4096,
             pool_mapped = True, pool_rw = {0 ..< 4096}\<rparr>)
   \<and> mempool_allocs \<lparr>pool_base = 65536, pool_size = 0, pool_alloc = 4096,
                       pool_mapped = True, pool_rw = {0 ..< 4096}\<rparr>
         [100, 18446744073709551566, 8]
     = Inr ([(65536, 100), (65636, 18446744073709551566), (65586, 8)],
            \<lparr>pool_base = 65536, pool_size = 58, pool_alloc = 4096,
             pool_mapped = True, pool_rw = {0 ..< 4096}\<rparr>)
   \<and> unat (58 :: 64 word) < unat (100 :: 64 word)
   \<and> \<not> {unat (65636 :: 64 word) - 65536 ..<
            unat (65636 :: 64 word) - 65536 + unat (18446744073709551566 :: 64 word)}
          \<subseteq> {0 ..< 4096 :: nat}
   \<and> \<not> unat (65536 :: 64 word) + unat (100 :: 64 word) \<le> unat (65586 :: 64 word)"
  by (simp add: mempool_init_def mempool_alloc_def POOL_CHUNK_SZ_def)

theorem mempool_growth_only_witness:
  "pool_wf \<lparr>pool_base = 65536, pool_size = 0, pool_alloc = 4096,
            pool_mapped = True, pool_rw = {0 ..< 4096}\<rparr>
   \<and> amount_ok 100 \<and> amount_ok 5000
   \<and> mempool_allocs \<lparr>pool_base = 65536, pool_size = 0, pool_alloc = 4096,
                       pool_mapped = True, pool_rw = {0 ..< 4096}\<rparr> [100, 5000]
       = Inr ([(65536, 100), (65636, 5000)],
              \<lparr>pool_base = 65536, pool_size = 5100, pool_alloc = 12288,
               pool_mapped = True, pool_rw = {0 ..< 4096} \<union> {4096 ..< 12288}\<rparr>)
   \<and> unat (fst ([(65536 :: 64 word, 100 :: 64 word), (65636, 5000)] ! 0))
       + unat (snd ([(65536 :: 64 word, 100 :: 64 word), (65636, 5000)] ! 0))
       \<le> unat (fst ([(65536 :: 64 word, 100 :: 64 word), (65636, 5000)] ! 1))
   \<and> {0 ..< 4096} \<union> {4096 ..< 12288} = {0 ..< unat (12288 :: 64 word)}"
proof -
  let ?p = "\<lparr>pool_base = 65536, pool_size = 0, pool_alloc = 4096,
            pool_mapped = True, pool_rw = {0 ..< 4096 :: nat}\<rparr>"
  let ?p' = "\<lparr>pool_base = 65536, pool_size = 5100, pool_alloc = 12288,
               pool_mapped = True, pool_rw = {0 ..< 4096 :: nat} \<union> {4096 ..< 12288}\<rparr>"
  let ?rs = "[(65536 :: 64 word, 100 :: 64 word), (65636, 5000)]"
  have wf: "pool_wf ?p" by (rule pool_example_wf)
  have ok1: "amount_ok 100" and ok2: "amount_ok 5000"
    by (simp_all add: amount_ok_def POOL_MAX_SZ_def POOL_CHUNK_SZ_def)
  then have ok: "\<forall>a \<in> set [100, 5000]. amount_ok a" by simp
  have run: "mempool_allocs ?p [100, 5000] = Inr (?rs, ?p')" by (rule pool_example_run)
  from mempool_growth_only [OF wf ok] run
  have ord: "\<forall>i j. i < j \<and> j < length ?rs \<longrightarrow>
                unat (fst (?rs ! i)) + unat (snd (?rs ! i)) \<le> unat (fst (?rs ! j))"
    and rw: "pool_rw ?p' = {0 ..< unat (pool_alloc ?p')}"
    by blast+
  have "unat (fst (?rs ! 0)) + unat (snd (?rs ! 0)) \<le> unat (fst (?rs ! 1))"
    using ord [rule_format, of 0 1] by simp
  moreover from rw have "{0 ..< 4096} \<union> {4096 ..< 12288} = {0 ..< unat (12288 :: 64 word)}"
    by simp
  ultimately show ?thesis using wf ok1 ok2 run by blast
qed

lemma vector_idx_in_range:
  assumes wf: "vector_wf v" and lt: "idx < vec_items v"
  shows "unat (vector_idx v idx) = unat (vec_data v) + unat idx * unat (vec_it_sz v)
         \<and> unat (vector_idx v idx) + unat (vec_it_sz v)
             \<le> unat (vec_data v) + unat (vec_items v) * unat (vec_it_sz v)
         \<and> vector_idx v idx \<noteq> NULL"
proof -
  from wf have nn: "vec_data v \<noteq> 0"
    and fits: "unat (vec_data v) + unat (vec_items v) * unat (vec_it_sz v) \<le> 2 ^ 64"
    by (simp_all add: vector_wf_def NULL_def)
  from lt have "unat idx < unat (vec_items v)" by (simp add: word_less_nat_alt)
  then have "Suc (unat idx) \<le> unat (vec_items v)" by simp
  then have "Suc (unat idx) * unat (vec_it_sz v) \<le> unat (vec_items v) * unat (vec_it_sz v)"
    by (rule mult_le_mono1)
  then have step: "unat idx * unat (vec_it_sz v) + unat (vec_it_sz v)
                    \<le> unat (vec_items v) * unat (vec_it_sz v)"
    by simp
  have dpos: "0 < unat (vec_data v)" using nn by (simp add: unat_gt_0)
  have mlt: "unat idx * unat (vec_it_sz v) < 2 ^ 64" using step fits dpos by linarith
  have um: "unat (idx * vec_it_sz v) = unat idx * unat (vec_it_sz v)"
    by (rule unat_mult_lem [THEN iffD1]) (use mlt in simp)
  have alt: "unat (vec_data v) + unat (idx * vec_it_sz v) < 2 ^ 64"
  proof (cases "unat (vec_it_sz v) = 0")
    case True
    then show ?thesis using um unsigned_less [of "vec_data v", where ?'a = nat] by simp
  next
    case False
    then show ?thesis using um step fits by linarith
  qed
  have ua: "unat (vec_data v + idx * vec_it_sz v) = unat (vec_data v) + unat (idx * vec_it_sz v)"
    by (rule unat_add_lem [THEN iffD1]) (use alt in simp)
  have idx: "vector_idx v idx = vec_data v + idx * vec_it_sz v"
    using lt by (simp add: vector_idx_def not_le [symmetric])
  have "0 < unat (vector_idx v idx)" using idx ua dpos by simp
  then have "vector_idx v idx \<noteq> NULL" by (simp add: unat_gt_0 NULL_def)
  then show ?thesis using idx ua um step by simp
qed

text \<open>
  Claim C10, amended. For a vector whose storage is a block of the address space (the data
  pointer is not null and the items end at or below \<open>2^64\<close>) and every index, \<^verbatim>\<open>vector_idx\<close>
  returns \<open>NULL\<close> exactly when the index is at or above the item count; otherwise it returns
  the address of that element, \<open>data + idx * it_sz\<close> without wrap-around, and the element
  lies within the items' storage. The function reads only the vector's fields: it is total
  and touches no storage.
\<close>

theorem vector_idx_total:
  assumes "vector_wf v"
  shows "(vector_idx v idx = NULL \<longleftrightarrow> idx \<ge> vec_items v)
    \<and> (idx < vec_items v \<longrightarrow>
          unat (vector_idx v idx) = unat (vec_data v) + unat idx * unat (vec_it_sz v)
          \<and> unat (vector_idx v idx) + unat (vec_it_sz v)
              \<le> unat (vec_data v) + unat (vec_items v) * unat (vec_it_sz v))"
proof (cases "idx < vec_items v")
  case True
  from vector_idx_in_range [OF assms True] True show ?thesis by (simp add: not_le [symmetric])
next
  case False
  then have "vec_items v \<le> idx" by (simp add: not_less)
  then show ?thesis using False by (simp add: vector_idx_def)
qed

text \<open>Vectors made by \<^verbatim>\<open>vector_init_size\<close> on such a pool are of that kind.\<close>

lemma vector_init_size_wf:
  assumes wf: "pool_wf p" and ok: "amount_ok (it_sz * items)"
    and nowrap: "unat it_sz * unat items < 2 ^ 64"
    and res: "vector_init_size it_sz p items = Inr (v, p')"
  shows "vector_wf v \<and> pool_wf p' \<and> vec_items v = items \<and> vec_it_sz v = it_sz"
proof -
  from res obtain ptr where a: "mempool_alloc p (it_sz * items) = Inr (ptr, p')"
    and v: "v = \<lparr>vec_it_sz = it_sz, vec_items = items, vec_alloc = items, vec_data = ptr\<rparr>"
    by (auto simp: vector_init_size_def split: sum.splits)
  from mempool_alloc_step [OF wf ok a]
  have wf': "pool_wf p'" and ptr: "unat ptr = unat (pool_base p) + unat (pool_size p)"
    and sz: "unat (pool_size p') = unat (pool_size p) + unat (it_sz * items)"
    by blast+
  have um: "unat (it_sz * items) = unat it_sz * unat items"
    by (rule unat_mult_lem [THEN iffD1]) (use nowrap in simp)
  from wf have "pool_base p \<noteq> 0" and bs: "unat (pool_base p) + 2 ^ 32 \<le> 2 ^ 64"
    by (simp_all add: pool_wf_def NULL_def POOL_MAX_SZ_def)
  then have "0 < unat (pool_base p)" by (simp add: unat_gt_0)
  then have "0 < unat ptr" using ptr by simp
  then have nn: "ptr \<noteq> NULL" by (simp add: unat_gt_0 NULL_def)
  from wf' have "unat (pool_size p') < 2 ^ 32" by (simp add: pool_wf_def POOL_MAX_SZ_def)
  then have "unat ptr + unat items * unat it_sz \<le> 2 ^ 64"
    using ptr sz um bs by (simp add: mult.commute)
  with nn v wf' show ?thesis by (simp add: vector_wf_def)
qed

text \<open>
  Claim C10 as stated, for every vector, fails on a vector the interface itself returns:
  \<^verbatim>\<open>vector_init_size\<close> with items of one byte and \<open>2^64 - 1\<close> of them is granted by the pool
  without growing it (the sum \<^verbatim>\<open>size + amount + 1\<close> wraps to 0), and for the index
  \<open>2^64 - 65536\<close>, which is below the item count, the sum \<open>data + idx * it_sz\<close> wraps to the
  null pointer.
\<close>

theorem vector_idx_wraparound_counterexample:
  "mempool_init (Some 65536) True
     = Inr \<lparr>pool_base = 65536, pool_size = 0, pool_alloc = 4096,
            pool_mapped = True, pool_rw = {0 ..< 4096}\<rparr>
   \<and> vector_init_size 1 \<lparr>pool_base = 65536, pool_size = 0, pool_alloc = 4096,
                           pool_mapped = True, pool_rw = {0 ..< 4096}\<rparr> 18446744073709551615
     = Inr (\<lparr>vec_it_sz = 1, vec_items = 18446744073709551615,
             vec_alloc = 18446744073709551615, vec_data = 65536\<rparr>,
            \<lparr>pool_base = 65536, pool_size = 18446744073709551615, pool_alloc = 4096,
             pool_mapped = True, pool_rw = {0 ..< 4096}\<rparr>)
   \<and> (18446744073709486080 :: 64 word) < 18446744073709551615
   \<and> vector_idx \<lparr>vec_it_sz = 1, vec_items = 18446744073709551615,
                  vec_alloc = 18446744073709551615, vec_data = 65536\<rparr> 18446744073709486080
     = NULL"
  by (simp add: mempool_init_def vector_init_size_def mempool_alloc_def POOL_CHUNK_SZ_def
        vector_idx_def NULL_def)

text \<open>A vector of \<^verbatim>\<open>vector_init\<close> has no items yet and is of that kind as well.\<close>

lemma vector_init_wf:
  assumes wf: "pool_wf p" and ok: "amount_ok (it_sz * VEC_INIT_ALLOC)"
    and res: "vector_init it_sz p = Inr (v, p')"
  shows "vector_wf v \<and> pool_wf p' \<and> vec_items v = 0 \<and> vec_it_sz v = it_sz"
proof -
  from res obtain ptr where a: "mempool_alloc p (it_sz * VEC_INIT_ALLOC) = Inr (ptr, p')"
    and v: "v = \<lparr>vec_it_sz = it_sz, vec_items = 0, vec_alloc = VEC_INIT_ALLOC, vec_data = ptr\<rparr>"
    by (auto simp: vector_init_def split: sum.splits)
  from mempool_alloc_step [OF wf ok a]
  have wf': "pool_wf p'" and ptr: "unat ptr = unat (pool_base p) + unat (pool_size p)"
    by blast+
  from wf have "pool_base p \<noteq> 0" by (simp add: pool_wf_def NULL_def)
  then have "0 < unat (pool_base p)" by (simp add: unat_gt_0)
  then have "0 < unat ptr" using ptr by simp
  then have nn: "ptr \<noteq> NULL" by (simp add: unat_gt_0 NULL_def)
  have "unat ptr \<le> 2 ^ 64" using unsigned_less [of ptr, where ?'a = nat] by simp
  with nn v wf' show ?thesis by (simp add: vector_wf_def)
qed

theorem vector_idx_total_witness:
  "vector_wf \<lparr>vec_it_sz = 8, vec_items = 3, vec_alloc = 3, vec_data = 65536\<rparr>
   \<and> vector_idx \<lparr>vec_it_sz = 8, vec_items = 3, vec_alloc = 3, vec_data = 65536\<rparr> 2 = 65552
   \<and> vector_idx \<lparr>vec_it_sz = 8, vec_items = 3, vec_alloc = 3, vec_data = 65536\<rparr> 3 = NULL
   \<and> (65552 :: 64 word) \<noteq> NULL"
proof -
  let ?v = "\<lparr>vec_it_sz = 8, vec_items = 3, vec_alloc = 3, vec_data = 65536 :: 64 word\<rparr>"
  have wf: "vector_wf ?v" by (simp add: vector_wf_def NULL_def)
  have i2: "vector_idx ?v 2 = 65552" and i3: "vector_idx ?v 3 = NULL"
    by (simp_all add: vector_idx_def)
  from vector_idx_total [OF wf, of 2] i2 have "(65552 :: 64 word) \<noteq> NULL" by simp
  with wf i2 i3 show ?thesis by blast
qed

section \<open>Properties of integer literals\<close>

lemma pos_to_num_empty:
  "pos_sz pos = 0 \<Longrightarrow> pos_to_num m pos ret = Inr (1, ret)"
  by (simp add: pos_to_num_def)

lemma pos_to_num_first:
  assumes "0 < unat (pos_sz pos)" and "peek_byte m (pos_start pos) = Some c"
    and "0 \<le> uint ret + (int (of_char c) - int (of_char CHR ''0''))"
    and "uint ret + (int (of_char c) - int (of_char CHR ''0'')) < 2 ^ 64"
  shows "pos_to_num m pos ret
         = Inr (0, word_of_int (uint ret + (int (of_char c) - int (of_char CHR ''0''))))"
  using assms by (simp add: pos_to_num_def builtin_add_overflow_def Let_def)

lemma pos_to_num_first_digit:
  assumes "0 < unat (pos_sz pos)" and "peek_byte m (pos_start pos) = Some c" and "is_digit c"
  shows "pos_to_num m pos 0 = Inr (0, of_nat (digit_val c))"
proof -
  have d: "int (of_char c) - int (of_char CHR ''0'') = int (digit_val c)"
    using assms(3) by (simp add: is_digit_def digit_val_def)
  have "digit_val c \<le> 9" using assms(3) unfolding is_digit_def digit_val_def by simp arith
  then have "int (digit_val c) < 2 ^ 64" by simp
  with d pos_to_num_first [OF assms(1,2), of 0] show ?thesis by simp
qed

lemma pos_to_num_loop_cong:
  assumes "\<forall>j. i \<le> j \<and> j < unat (pos_sz pos) \<longrightarrow>
             peek_byte m' (pos_start pos + int j) = peek_byte m (pos_start pos + int j)"
  shows "pos_to_num_loop m' pos i ret = pos_to_num_loop m pos i ret"
  using assms
proof (induction m pos i ret rule: pos_to_num_loop.induct)
  case (1 m pos i ret)
  show ?case
  proof (cases "i < unat (pos_sz pos)")
    case False
    then show ?thesis by simp
  next
    case True
    with "1.prems" have same: "peek_byte m' (pos_start pos + int i) = peek_byte m (pos_start pos + int i)"
      by simp
    show ?thesis
    proof (cases "peek_byte m (pos_start pos + int i)")
      case None
      with True same show ?thesis by simp
    next
      case (Some c)
      obtain ovf ret' where b: "builtin_add_overflow ret (int (of_char c) - int (of_char CHR ''0'')) = (ovf, ret')"
        by (cases "builtin_add_overflow ret (int (of_char c) - int (of_char CHR ''0''))")
      show ?thesis
      proof (cases ovf)
        case False
        with True same Some b show ?thesis by simp
      next
        case ovf: True
        have "pos_to_num_loop m' pos (i + 1) ret' = pos_to_num_loop m pos (i + 1) ret'"
          using "1.IH" [OF True Some b [symmetric] refl] ovf "1.prems" by simp
        with True same Some b ovf show ?thesis by simp
      qed
    qed
  qed
qed

text \<open>
  Claim C2 does not hold of the code. On the literal \<^verbatim>\<open>12\<close> the conversion returns 0
  (success) after the first digit with the value 1: the second digit is never added, and
  the stored value is not the sum 3 over all digits. The test of \<^verbatim>\<open>pos_to_num\<close> is negated:
  it returns at the first addition that does not overflow.
\<close>

theorem pos_to_num_stops_after_first_digit:
  "pos_to_num lit_buf \<lparr>pos_start = 4104, pos_sz = 2\<rparr> 0 = Inr (0, 1)
   \<and> peek_byte lit_buf 4104 = Some CHR ''1'' \<and> peek_byte lit_buf 4105 = Some CHR ''2''
   \<and> make_intlit_expr lit_buf ex_ast ex_io 0 \<lparr>pos_start = 4104, pos_sz = 2\<rparr> INTLIT_I64_NONE
       = Inr (EXPR_INT \<lparr>pos_start = 4104, pos_sz = 2\<rparr> 1 INTLIT_I64_NONE)"
  by (simp add: make_intlit_expr_def pos_to_num_def lit_buf_def peek_byte_def
        builtin_add_overflow_def)

text \<open>
  Claim C1 as stated fails: the literal \<^verbatim>\<open>300u8\<close>, whose value 300 exceeds the range of
  \<^verbatim>\<open>u8\<close>, is accepted without a diagnostic.
\<close>

theorem intlit_no_range_check_counterexample:
  "dec_value ''300'' > intlit_max INTLIT_U8
   \<and> map (\<lambda>p. peek_byte lit_buf p) [4096, 4097, 4098, 4099, 4100]
       = map Some ''300u8''
   \<and> make_intlit_expr lit_buf ex_ast ex_io 0 \<lparr>pos_start = 4096, pos_sz = 5\<rparr> INTLIT_U8
       = Inr (EXPR_INT \<lparr>pos_start = 4096, pos_sz = 5\<rparr> 3 INTLIT_U8)"
  by (simp add: make_intlit_expr_def pos_to_num_def lit_buf_def peek_byte_def
        builtin_add_overflow_def dec_value_def digit_val_def)

lemma make_intlit_expr_Inr:
  "make_intlit_expr m ast out v0 whole_pos t = Inr e \<longleftrightarrow>
   (\<exists>val. e = EXPR_INT whole_pos val t
      \<and> pos_to_num m (whole_pos\<lparr>pos_sz := pos_sz whole_pos - intlit_pos_sz t\<rparr>) v0 = Inr (0, val))"
  by (auto simp: make_intlit_expr_def Let_def split: sum.splits if_splits)

lemma pos_to_num_cong:
  assumes "\<forall>j < unat (pos_sz pos).
             peek_byte m' (pos_start pos + int j) = peek_byte m (pos_start pos + int j)"
  shows "pos_to_num m' pos ret = pos_to_num m pos ret"
  unfolding pos_to_num_def using assms by (intro pos_to_num_loop_cong) simp






lemma make_intlit_expr_Inl:
  "make_intlit_expr m ast out v0 whole_pos t = Inl f \<longleftrightarrow>
   pos_to_num m (whole_pos\<lparr>pos_sz := pos_sz whole_pos - intlit_pos_sz t\<rparr>) v0 = Inl f
   \<or> (\<exists>r val. pos_to_num m (whole_pos\<lparr>pos_sz := pos_sz whole_pos - intlit_pos_sz t\<rparr>) v0
                  = Inr (r, val) \<and> r \<noteq> 0
          \<and> (overflow_msg m whole_pos = Inl f
              \<or> (\<exists>msg. overflow_msg m whole_pos = Inr msg
                     \<and> f = log_source_err msg m (ast_src_base ast) whole_pos out)))"
  by (auto simp: make_intlit_expr_def Let_def split: sum.splits if_splits)

text \<open>
  Claim C1, amended. \<^verbatim>\<open>make_intlit_expr\<close> compares nothing with the range of the suffix
  type. It fails exactly when the digit conversion \<^verbatim>\<open>pos_to_num\<close> fails or returns non-zero
  for the 64-bit value field, and then stops with the overflow diagnostic of
  \<^verbatim>\<open>log_source_err\<close> for the literal's whole span (digits and suffix) against \<^verbatim>\<open>ast->src_base\<close>;
  two tags with the same suffix length fail on the same inputs. For every literal within
  its type's range (at least one digit, all characters decimal digits, value field zero
  before the conversion) no diagnostic is raised.
\<close>

theorem intlit_overflow_diagnostic:
  "(make_intlit_expr m ast out v0 whole_pos t = Inl f \<longleftrightarrow>
      pos_to_num m (whole_pos\<lparr>pos_sz := pos_sz whole_pos - intlit_pos_sz t\<rparr>) v0 = Inl f
      \<or> (\<exists>r val. pos_to_num m (whole_pos\<lparr>pos_sz := pos_sz whole_pos - intlit_pos_sz t\<rparr>) v0
                     = Inr (r, val) \<and> r \<noteq> 0
             \<and> (overflow_msg m whole_pos = Inl f
                 \<or> (\<exists>msg. overflow_msg m whole_pos = Inr msg
                        \<and> f = log_source_err msg m (ast_src_base ast) whole_pos out))))
   \<and> (intlit_pos_sz t' = intlit_pos_sz t \<longrightarrow>
        (make_intlit_expr m ast out v0 whole_pos t' = Inl f
           \<longleftrightarrow> make_intlit_expr m ast out v0 whole_pos t = Inl f))
   \<and> (ds \<noteq> [] \<and> (\<forall>c \<in> set ds. is_digit c)
        \<and> unat (pos_sz whole_pos) = length ds + unat (intlit_pos_sz t)
        \<and> (\<forall>j < length ds. peek_byte m (pos_start whole_pos + int j) = Some (ds ! j))
        \<and> dec_value ds \<le> intlit_max t \<longrightarrow>
        (\<exists>val. make_intlit_expr m ast out 0 whole_pos t = Inr (EXPR_INT whole_pos val t)))"
proof (intro conjI impI)
  show "make_intlit_expr m ast out v0 whole_pos t = Inl f \<longleftrightarrow>
      pos_to_num m (whole_pos\<lparr>pos_sz := pos_sz whole_pos - intlit_pos_sz t\<rparr>) v0 = Inl f
      \<or> (\<exists>r val. pos_to_num m (whole_pos\<lparr>pos_sz := pos_sz whole_pos - intlit_pos_sz t\<rparr>) v0
                     = Inr (r, val) \<and> r \<noteq> 0
             \<and> (overflow_msg m whole_pos = Inl f
                 \<or> (\<exists>msg. overflow_msg m whole_pos = Inr msg
                        \<and> f = log_source_err msg m (ast_src_base ast) whole_pos out)))"
    by (rule make_intlit_expr_Inl)
next
  assume "intlit_pos_sz t' = intlit_pos_sz t"
  then show "make_intlit_expr m ast out v0 whole_pos t' = Inl f
           \<longleftrightarrow> make_intlit_expr m ast out v0 whole_pos t = Inl f"
    by (simp add: make_intlit_expr_Inl)
next
  assume a: "ds \<noteq> [] \<and> (\<forall>c \<in> set ds. is_digit c)
        \<and> unat (pos_sz whole_pos) = length ds + unat (intlit_pos_sz t)
        \<and> (\<forall>j < length ds. peek_byte m (pos_start whole_pos + int j) = Some (ds ! j))
        \<and> dec_value ds \<le> intlit_max t"
  let ?digits = "whole_pos\<lparr>pos_sz := pos_sz whole_pos - intlit_pos_sz t\<rparr>"
  from a have "unat (intlit_pos_sz t) \<le> unat (pos_sz whole_pos)" by simp
  then have "intlit_pos_sz t \<le> pos_sz whole_pos" by (simp add: word_le_nat_alt)
  then have "unat (pos_sz ?digits) = unat (pos_sz whole_pos) - unat (intlit_pos_sz t)"
    by (simp add: unat_sub)
  with a have len: "unat (pos_sz ?digits) = length ds" by simp
  with a have pos: "0 < unat (pos_sz ?digits)" by simp
  from a have first: "peek_byte m (pos_start ?digits) = Some (ds ! 0)"
    and dig: "is_digit (ds ! 0)"
    by (auto dest: spec [of _ 0])
  from pos_to_num_first_digit [OF pos first dig]
  show "\<exists>val. make_intlit_expr m ast out 0 whole_pos t = Inr (EXPR_INT whole_pos val t)"
    by (simp add: make_intlit_expr_Inr)
qed

theorem intlit_overflow_diagnostic_witness:
  "make_intlit_expr lit_buf ex_ast ex_io 0 \<lparr>pos_start = 4104, pos_sz = 2\<rparr> INTLIT_I64_NONE
     = Inr (EXPR_INT \<lparr>pos_start = 4104, pos_sz = 2\<rparr> 1 INTLIT_I64_NONE)
   \<and> dec_value ''12'' \<le> intlit_max INTLIT_I64_NONE
   \<and> pos_to_num lit_buf \<lparr>pos_start = 4099, pos_sz = 0\<rparr> 0 = Inr (1, 0)
   \<and> make_intlit_expr lit_buf ex_ast ex_io 0 \<lparr>pos_start = 4099, pos_sz = 2\<rparr> INTLIT_U8
     = Inl (log_source_err (''overflow on '' @ [CHR 0x27] @ ''u8'' @ [CHR 0x27]) lit_buf 4096
              \<lparr>pos_start = 4099, pos_sz = 2\<rparr> ex_io)"
proof -
  let ?wp = "\<lparr>pos_start = 4104, pos_sz = 2\<rparr>"
  have h: "''12'' \<noteq> [] \<and> (\<forall>c \<in> set ''12''. is_digit c)
        \<and> unat (pos_sz ?wp) = length ''12'' + unat (intlit_pos_sz INTLIT_I64_NONE)
        \<and> (\<forall>j < length ''12''. peek_byte lit_buf (pos_start ?wp + int j) = Some (''12'' ! j))
        \<and> dec_value ''12'' \<le> intlit_max INTLIT_I64_NONE"
  proof -
    have "\<forall>j < length ''12''. peek_byte lit_buf (pos_start ?wp + int j) = Some (''12'' ! j)"
    proof (intro allI impI)
      fix j :: nat
      assume "j < length ''12''"
      then have "j = 0 \<or> j = 1" by (simp add: less_Suc_eq)
      then show "peek_byte lit_buf (pos_start ?wp + int j) = Some (''12'' ! j)"
        by (auto simp: lit_buf_def peek_byte_def)
    qed
    then show ?thesis
      by (simp add: is_digit_def dec_value_def digit_val_def)
  qed
  from intlit_overflow_diagnostic [of lit_buf ex_ast ex_io 0 ?wp INTLIT_I64_NONE _ _ "''12''"] h
  obtain val where "make_intlit_expr lit_buf ex_ast ex_io 0 ?wp INTLIT_I64_NONE
      = Inr (EXPR_INT ?wp val INTLIT_I64_NONE)"
    by blast
  moreover have "make_intlit_expr lit_buf ex_ast ex_io 0 ?wp INTLIT_I64_NONE
      = Inr (EXPR_INT ?wp 1 INTLIT_I64_NONE)"
    by (simp add: make_intlit_expr_def pos_to_num_def lit_buf_def peek_byte_def
          builtin_add_overflow_def)
  moreover have e: "pos_to_num lit_buf \<lparr>pos_start = 4099, pos_sz = 0\<rparr> 0 = Inr (1, 0)"
    by (simp add: pos_to_num_def)
  moreover have msg: "overflow_msg lit_buf \<lparr>pos_start = 4099, pos_sz = 2\<rparr>
      = Inr (''overflow on '' @ [CHR 0x27] @ ''u8'' @ [CHR 0x27])"
    by (simp add: overflow_msg_def lit_buf_def peek_byte_def Let_def)
  moreover have "make_intlit_expr lit_buf ex_ast ex_io 0 \<lparr>pos_start = 4099, pos_sz = 2\<rparr> INTLIT_U8
     = Inl (log_source_err (''overflow on '' @ [CHR 0x27] @ ''u8'' @ [CHR 0x27]) lit_buf 4096
              \<lparr>pos_start = 4099, pos_sz = 2\<rparr> ex_io)"
    using e msg
      intlit_overflow_diagnostic [of lit_buf ex_ast ex_io 0 "\<lparr>pos_start = 4099, pos_sz = 2\<rparr>"
        INTLIT_U8 "log_source_err (''overflow on '' @ [CHR 0x27] @ ''u8'' @ [CHR 0x27]) lit_buf 4096
              \<lparr>pos_start = 4099, pos_sz = 2\<rparr> ex_io"]
    by (simp add: ex_ast_def)
  ultimately show ?thesis using h by simp
qed

section \<open>The token stream\<close>

lemma consumed_refl: "consumed st st []"
  by (simp add: consumed_def)

lemma consumed_env:
  assumes "consumed st st' ts"
  shows "memory st' = memory st" and "stdio st' = stdio st" and "src_base st' = src_base st"
    and "eof_pos st' = eof_pos st"
proof -
  from assms have eq: "st' = st\<lparr>toks := toks st'\<rparr>" by (simp add: consumed_def)
  show "memory st' = memory st" by (subst eq) simp
  show "stdio st' = stdio st" by (subst eq) simp
  show "src_base st' = src_base st" by (subst eq) simp
  show "eof_pos st' = eof_pos st" by (subst eq) simp
qed

lemma consumed_trans:
  assumes a: "consumed st st1 ts1" and b: "consumed st1 st2 ts2"
  shows "consumed st st2 (ts1 @ ts2)"
proof -
  from a have t1: "toks st = ts1 @ toks st1" and e1: "st1 = st\<lparr>toks := toks st1\<rparr>"
    by (simp_all add: consumed_def)
  from b have t2: "toks st1 = ts2 @ toks st2" and e2: "st2 = st1\<lparr>toks := toks st2\<rparr>"
    by (simp_all add: consumed_def)
  have "st2 = (st\<lparr>toks := toks st1\<rparr>)\<lparr>toks := toks st2\<rparr>" using e1 e2 by simp
  then have "st2 = st\<lparr>toks := toks st2\<rparr>" by simp
  with t1 t2 show ?thesis by (simp add: consumed_def)
qed

lemma lexer_next_cons: "toks st = tok # rest \<Longrightarrow> lexer_next st = (tok, st\<lparr>toks := rest\<rparr>)"
  by (simp add: lexer_next_def)

lemma lexer_peek_cons: "toks st = tok # rest \<Longrightarrow> lexer_peek st = tok"
  by (simp add: lexer_peek_def)

lemma lexer_peek_kind:
  assumes "tok_t (lexer_peek st) = k" and "k \<noteq> TOK_EOF"
  shows "\<exists>rest. toks st = lexer_peek st # rest"
  using assms by (cases "toks st") (auto simp: lexer_peek_def eof_token_def)

lemma lexer_next_consumed:
  assumes "tok_t (lexer_peek st) \<noteq> TOK_EOF"
  shows "fst (lexer_next st) = lexer_peek st \<and> consumed st (snd (lexer_next st)) [lexer_peek st]"
  using assms by (cases "toks st") (auto simp: lexer_peek_def lexer_next_def eof_token_def consumed_def)

lemma lexer_next_Pair:
  assumes "lexer_next st = (tok, st')" and "tok_t tok \<noteq> TOK_EOF"
  shows "consumed st st' [tok]"
  using assms by (cases "toks st") (auto simp: lexer_next_def eof_token_def consumed_def)

lemma expect_Inr:
  assumes "expect t msg st = Inr (tok, st')" and "t \<noteq> TOK_EOF"
  shows "tok_t tok = t \<and> consumed st st' [tok]"
proof -
  obtain tok0 st0 where n: "lexer_next st = (tok0, st0)" by (cases "lexer_next st")
  with assms(1) have "tok_t tok0 = t" and "tok = tok0" and "st' = st0"
    by (auto simp: expect_def split: if_splits)
  with n assms(2) lexer_next_Pair [of st tok st'] show ?thesis by simp
qed

lemma parse_binop_Inr:
  assumes "parse_binop st = Inr (op, st')"
  shows "consumed st st' [lexer_peek st]
         \<and> (mul_op (tok_t (lexer_peek st)) op \<or> add_op (tok_t (lexer_peek st)) op
             \<or> cmp_op (tok_t (lexer_peek st)) op)"
proof -
  obtain tok0 st0 where n: "lexer_next st = (tok0, st0)" by (cases "lexer_next st")
  with assms have k: "mul_op (tok_t tok0) op \<or> add_op (tok_t tok0) op \<or> cmp_op (tok_t tok0) op"
    and s: "st' = st0"
    by (auto simp: parse_binop_def mul_op_def add_op_def cmp_op_def split: if_splits)
  from k have "tok_t tok0 \<noteq> TOK_EOF" by (auto simp: mul_op_def add_op_def cmp_op_def)
  with n have c: "consumed st st0 [tok0]" by (rule lexer_next_Pair)
  then have "toks st = tok0 # toks st0" by (simp add: consumed_def)
  then have "lexer_peek st = tok0" by (rule lexer_peek_cons)
  with c k s show ?thesis by simp
qed


section \<open>Soundness of the expression parser\<close>

lemmas g_literal = grammar_primary_grammar_args_grammar_factor_grammar_term_grammar_comp.literal
  and g_name = grammar_primary_grammar_args_grammar_factor_grammar_term_grammar_comp.name
  and g_call = grammar_primary_grammar_args_grammar_factor_grammar_term_grammar_comp.call
  and g_paren = grammar_primary_grammar_args_grammar_factor_grammar_term_grammar_comp.paren
  and g_no_args = grammar_primary_grammar_args_grammar_factor_grammar_term_grammar_comp.no_args
  and g_last_arg = grammar_primary_grammar_args_grammar_factor_grammar_term_grammar_comp.last_arg
  and g_more_args = grammar_primary_grammar_args_grammar_factor_grammar_term_grammar_comp.more_args
  and g_factor_primary =
    grammar_primary_grammar_args_grammar_factor_grammar_term_grammar_comp.factor_primary
  and g_factor_op = grammar_primary_grammar_args_grammar_factor_grammar_term_grammar_comp.factor_op
  and g_term_factor =
    grammar_primary_grammar_args_grammar_factor_grammar_term_grammar_comp.term_factor
  and g_term_op = grammar_primary_grammar_args_grammar_factor_grammar_term_grammar_comp.term_op
  and g_comp_term = grammar_primary_grammar_args_grammar_factor_grammar_term_grammar_comp.comp_term
  and g_comp_op = grammar_primary_grammar_args_grammar_factor_grammar_term_grammar_comp.comp_op

lemma step_primary:
  assumes se: "sound_expr n ast" and sf: "sound_funcall n ast"
  shows "sound_primary (Suc n) ast"
  unfolding sound_primary_def
proof (intro allI impI)
  fix st e st'
  assume run: "parse_primary (Suc n) ast st = Inr (e, st')"
  obtain tok st1 where nx: "lexer_next st = (tok, st1)" by (cases "lexer_next st")
  let ?G = "grammar_primary (memory st) ast (stdio st)"
  consider (lit) "tok_t tok = TOK_INT" | (sym) "tok_t tok = TOK_SYM"
    | (par) "tok_t tok = TOK_LPAREN"
    | (other) "tok_t tok \<noteq> TOK_INT" "tok_t tok \<noteq> TOK_SYM" "tok_t tok \<noteq> TOK_LPAREN"
    by blast
  then show "\<exists>ts. consumed st st' ts \<and> ?G ts e"
  proof cases
    case lit
    then have c: "consumed st st1 [tok]" using nx by (intro lexer_next_Pair) simp_all
    from run nx lit have m: "make_intlit_expr (memory st1) ast (stdio st1) 0 (tok_pos tok)
        (tok_intlit_type tok) = Inr e" and s: "st' = st1"
      by (auto split: sum.splits)
    from m consumed_env [OF c] have "?G [tok] e"
      by (intro g_literal [OF lit]) simp
    with c s show ?thesis by blast
  next
    case sym
    then have c: "consumed st st1 [tok]" using nx by (intro lexer_next_Pair) simp_all
    show ?thesis
    proof (cases "tok_t (lexer_peek st1) = TOK_LPAREN")
      case True
      with run nx sym have "parse_funcall n ast tok st1 = Inr (e, st')" by simp
      with sf sym True obtain ts where c1: "consumed st1 st' ts"
        and g: "grammar_primary (memory st1) ast (stdio st1) (tok # ts) e"
        unfolding sound_funcall_def by blast
      from consumed_trans [OF c c1] g consumed_env [OF c] show ?thesis by auto
    next
      case False
      with run nx sym have "e = EXPR_VAR (tok_pos tok)" and "st' = st1" by simp_all
      with c g_name [OF sym]
      show ?thesis by blast
    qed
  next
    case par
    then have c: "consumed st st1 [tok]" using nx by (intro lexer_next_Pair) simp_all
    from run nx par obtain st2 rp where pe: "parse_expr n ast st1 = Inr (e, st2)"
      and ex: "expect TOK_RPAREN msg_expected_rparen st2 = Inr (rp, st')"
      by (auto split: sum.splits)
    from se pe obtain ts where c1: "consumed st1 st2 ts"
      and g: "grammar_comp (memory st1) ast (stdio st1) ts e"
      unfolding sound_expr_def by blast
    from expect_Inr [OF ex] have rp: "tok_t rp = TOK_RPAREN" and c2: "consumed st2 st' [rp]"
      by simp_all
    from g consumed_env [OF c] have "?G (tok # ts @ [rp]) e"
      by (intro g_paren [OF par rp]) simp
    moreover have "consumed st st' (tok # ts @ [rp])"
      using consumed_trans [OF c consumed_trans [OF c1 c2]] by simp
    ultimately show ?thesis by blast
  next
    case other
    with run nx show ?thesis by simp
  qed
qed


lemma op_kind_mul:
  assumes "k = TOK_MUL \<or> k = TOK_DIV" and "mul_op k op \<or> add_op k op \<or> cmp_op k op"
  shows "mul_op k op"
proof -
  from assms(1) have "\<not> add_op k op" and "\<not> cmp_op k op"
    by (auto simp: add_op_def cmp_op_def)
  with assms(2) show ?thesis by blast
qed

lemma op_kind_add:
  assumes "k = TOK_ADD \<or> k = TOK_SUB" and "mul_op k op \<or> add_op k op \<or> cmp_op k op"
  shows "add_op k op"
proof -
  from assms(1) have "\<not> mul_op k op" and "\<not> cmp_op k op"
    by (auto simp: mul_op_def cmp_op_def)
  with assms(2) show ?thesis by blast
qed

lemma op_kind_cmp:
  assumes "k = TOK_DEQ \<or> k = TOK_NEQ \<or> k = TOK_GR \<or> k = TOK_LE \<or> k = TOK_GREQ \<or> k = TOK_LEEQ"
    and "mul_op k op \<or> add_op k op \<or> cmp_op k op"
  shows "cmp_op k op"
proof -
  from assms(1) have "\<not> mul_op k op" and "\<not> add_op k op"
    by (auto simp: mul_op_def add_op_def)
  with assms(2) show ?thesis by blast
qed

lemma step_args:
  assumes se: "sound_expr n ast" and sa: "sound_args n ast"
  shows "sound_args (Suc n) ast"
  unfolding sound_args_def
proof (intro allI impI)
  fix args st es st'
  assume run: "parse_funcall_args (Suc n) ast args st = Inr (es, st')"
  let ?G = "grammar_args (memory st) ast (stdio st)"
  show "\<exists>ts new. consumed st st' ts \<and> es = args @ new \<and> ?G ts new"
  proof (cases "tok_t (lexer_peek st) \<noteq> TOK_RPAREN")
    case False
    with run have "es = args" and "st' = st" by simp_all
    with consumed_refl [of st] g_no_args [of "memory st" ast "stdio st"] show ?thesis by auto
  next
    case True
    with run obtain temp st1 where pe: "parse_expr n ast st = Inr (temp, st1)"
      by (auto split: sum.splits)
    from se pe obtain ts1 where c1: "consumed st st1 ts1"
      and ge: "grammar_comp (memory st) ast (stdio st) ts1 temp"
      unfolding sound_expr_def by blast
    note env1 = consumed_env [OF c1]
    show ?thesis
    proof (cases "tok_t (lexer_peek st1) \<noteq> TOK_COMMA")
      case nc: True
      with run True pe have "es = args @ [temp]" and "st' = st1" by simp_all
      with c1 g_last_arg [OF ge] show ?thesis by blast
    next
      case False
      then have comma: "tok_t (lexer_peek st1) = TOK_COMMA" by simp
      with run True pe have rest:
        "parse_funcall_args n ast (args @ [temp]) (snd (lexer_next st1)) = Inr (es, st')"
        by simp
      from comma have c2: "consumed st1 (snd (lexer_next st1)) [lexer_peek st1]"
        using lexer_next_consumed [of st1] by simp
      note env2 = consumed_env [OF consumed_trans [OF c1 c2]]
      from sa rest obtain ts' new where c3: "consumed (snd (lexer_next st1)) st' ts'"
        and es: "es = (args @ [temp]) @ new"
        and ga: "grammar_args (memory (snd (lexer_next st1))) ast (stdio (snd (lexer_next st1)))
                   ts' new"
        unfolding sound_args_def by blast
      from ga env2 have "?G ts' new" by simp
      from g_more_args [OF ge comma this]
      have "?G (ts1 @ lexer_peek st1 # ts') (temp # new)" .
      moreover have "consumed st st' (ts1 @ lexer_peek st1 # ts')"
        using consumed_trans [OF c1 consumed_trans [OF c2 c3]] by simp
      moreover have "es = args @ temp # new" using es by simp
      ultimately show ?thesis by blast
    qed
  qed
qed

lemma step_funcall:
  assumes sa: "sound_args n ast"
  shows "sound_funcall (Suc n) ast"
  unfolding sound_funcall_def
proof (intro allI impI)
  fix f st e st'
  assume run: "parse_funcall (Suc n) ast f st = Inr (e, st')"
    and sym: "tok_t f = TOK_SYM" and lp: "tok_t (lexer_peek st) = TOK_LPAREN"
  from run obtain args st1 rp where pa:
      "parse_funcall_args n ast [] (snd (lexer_next st)) = Inr (args, st1)"
    and ex: "expect TOK_RPAREN msg_expected_rparen st1 = Inr (rp, st')"
    and e: "e = EXPR_FUNCALL (combine_pos (tok_pos f) (tok_pos rp)) (tok_pos f) args"
    by (auto split: sum.splits)
  from lp have c0: "consumed st (snd (lexer_next st)) [lexer_peek st]"
    using lexer_next_consumed [of st] by simp
  note env0 = consumed_env [OF c0]
  from sa pa obtain ts new where c1: "consumed (snd (lexer_next st)) st1 ts"
    and args: "args = [] @ new"
    and ga: "grammar_args (memory (snd (lexer_next st))) ast (stdio (snd (lexer_next st))) ts new"
    unfolding sound_args_def by blast
  from expect_Inr [OF ex] have rp: "tok_t rp = TOK_RPAREN" and c2: "consumed st1 st' [rp]"
    by simp_all
  from ga env0 args have "grammar_args (memory st) ast (stdio st) ts args" by simp
  from g_call [OF sym lp rp this] e
  have "grammar_primary (memory st) ast (stdio st) (f # lexer_peek st # ts @ [rp]) e" by simp
  moreover have "consumed st st' (lexer_peek st # ts @ [rp])"
    using consumed_trans [OF c0 consumed_trans [OF c1 c2]] by simp
  ultimately show "\<exists>ts. consumed st st' ts \<and> grammar_primary (memory st) ast (stdio st) (f # ts) e"
    by blast
qed

lemma step_factor_loop:
  assumes sp: "sound_primary n ast" and sl: "sound_factor_loop n ast"
  shows "sound_factor_loop (Suc n) ast"
  unfolding sound_factor_loop_def
proof (intro allI impI)
  fix ret st e st' ts0
  assume run: "parse_factor_loop (Suc n) ast ret st = Inr (e, st')"
    and g0: "grammar_factor (memory st) ast (stdio st) ts0 ret"
  let ?k = "tok_t (lexer_peek st)"
  show "\<exists>ts. consumed st st' ts \<and> grammar_factor (memory st) ast (stdio st) (ts0 @ ts) e"
  proof (cases "?k = TOK_MUL \<or> ?k = TOK_DIV")
    case False
    with run have "e = ret" and "st' = st" by simp_all
    with g0 consumed_refl [of st] show ?thesis by auto
  next
    case True
    with run obtain op st1 right st2 where pb: "parse_binop st = Inr (op, st1)"
      and pr: "parse_primary n ast st1 = Inr (right, st2)"
      and rest: "parse_factor_loop n ast
                   (EXPR_BINOP (combine_pos (expr_pos ret) (expr_pos right)) op ret right) st2
                 = Inr (e, st')"
      by (auto split: sum.splits)
    from parse_binop_Inr [OF pb] have c: "consumed st st1 [lexer_peek st]"
      and "mul_op ?k op \<or> add_op ?k op \<or> cmp_op ?k op"
      by blast+
    with True have op: "mul_op ?k op" by (intro op_kind_mul)
    from sp pr obtain ts2 where c1: "consumed st1 st2 ts2"
      and gr: "grammar_primary (memory st1) ast (stdio st1) ts2 right"
      unfolding sound_primary_def by blast
    note env1 = consumed_env [OF c]
    note env2 = consumed_env [OF consumed_trans [OF c c1]]
    from gr env1 have gr': "grammar_primary (memory st) ast (stdio st) ts2 right" by simp
    have "grammar_factor (memory st) ast (stdio st) (ts0 @ lexer_peek st # ts2)
            (binop_node op ret right)"
      by (rule g_factor_op [OF g0 op gr'])
    then have "grammar_factor (memory st2) ast (stdio st2) (ts0 @ lexer_peek st # ts2)
            (EXPR_BINOP (combine_pos (expr_pos ret) (expr_pos right)) op ret right)"
      using env2 by (simp add: binop_node_def)
    with sl rest obtain ts where c2: "consumed st2 st' ts"
      and g: "grammar_factor (memory st2) ast (stdio st2) ((ts0 @ lexer_peek st # ts2) @ ts) e"
      unfolding sound_factor_loop_def by blast
    have "consumed st st' (lexer_peek st # ts2 @ ts)"
      using consumed_trans [OF c consumed_trans [OF c1 c2]] by simp
    moreover from g env2 have
      "grammar_factor (memory st) ast (stdio st) (ts0 @ lexer_peek st # ts2 @ ts) e"
      by simp
    ultimately show ?thesis by blast
  qed
qed

lemma step_factor:
  assumes sp: "sound_primary n ast" and sl: "sound_factor_loop n ast"
  shows "sound_factor (Suc n) ast"
  unfolding sound_factor_def
proof (intro allI impI)
  fix st e st'
  assume run: "parse_factor (Suc n) ast st = Inr (e, st')"
  then obtain ret st1 where pr: "parse_primary n ast st = Inr (ret, st1)"
    and rest: "parse_factor_loop n ast ret st1 = Inr (e, st')"
    by (auto split: sum.splits)
  from sp pr obtain ts1 where c1: "consumed st st1 ts1"
    and gr: "grammar_primary (memory st) ast (stdio st) ts1 ret"
    unfolding sound_primary_def by blast
  note env1 = consumed_env [OF c1]
  from gr env1 have "grammar_factor (memory st1) ast (stdio st1) ts1 ret"
    by (simp add: g_factor_primary)
  with sl rest obtain ts where c2: "consumed st1 st' ts"
    and g: "grammar_factor (memory st1) ast (stdio st1) (ts1 @ ts) e"
    unfolding sound_factor_loop_def by blast
  from consumed_trans [OF c1 c2] g env1 show
    "\<exists>ts. consumed st st' ts \<and> grammar_factor (memory st) ast (stdio st) ts e"
    by auto
qed

lemma step_term_loop:
  assumes sp: "sound_factor n ast" and sl: "sound_term_loop n ast"
  shows "sound_term_loop (Suc n) ast"
  unfolding sound_term_loop_def
proof (intro allI impI)
  fix ret st e st' ts0
  assume run: "parse_term_loop (Suc n) ast ret st = Inr (e, st')"
    and g0: "grammar_term (memory st) ast (stdio st) ts0 ret"
  let ?k = "tok_t (lexer_peek st)"
  show "\<exists>ts. consumed st st' ts \<and> grammar_term (memory st) ast (stdio st) (ts0 @ ts) e"
  proof (cases "?k = TOK_ADD \<or> ?k = TOK_SUB")
    case False
    with run have "e = ret" and "st' = st" by simp_all
    with g0 consumed_refl [of st] show ?thesis by auto
  next
    case True
    with run obtain op st1 right st2 where pb: "parse_binop st = Inr (op, st1)"
      and pr: "parse_factor n ast st1 = Inr (right, st2)"
      and rest: "parse_term_loop n ast
                   (EXPR_BINOP (combine_pos (expr_pos ret) (expr_pos right)) op ret right) st2
                 = Inr (e, st')"
      by (auto split: sum.splits)
    from parse_binop_Inr [OF pb] have c: "consumed st st1 [lexer_peek st]"
      and "mul_op ?k op \<or> add_op ?k op \<or> cmp_op ?k op"
      by blast+
    with True have op: "add_op ?k op" by (intro op_kind_add)
    from sp pr obtain ts2 where c1: "consumed st1 st2 ts2"
      and gr: "grammar_factor (memory st1) ast (stdio st1) ts2 right"
      unfolding sound_factor_def by blast
    note env1 = consumed_env [OF c]
    note env2 = consumed_env [OF consumed_trans [OF c c1]]
    from gr env1 have gr': "grammar_factor (memory st) ast (stdio st) ts2 right" by simp
    have "grammar_term (memory st) ast (stdio st) (ts0 @ lexer_peek st # ts2)
            (binop_node op ret right)"
      by (rule g_term_op [OF g0 op gr'])
    then have "grammar_term (memory st2) ast (stdio st2) (ts0 @ lexer_peek st # ts2)
            (EXPR_BINOP (combine_pos (expr_pos ret) (expr_pos right)) op ret right)"
      using env2 by (simp add: binop_node_def)
    with sl rest obtain ts where c2: "consumed st2 st' ts"
      and g: "grammar_term (memory st2) ast (stdio st2) ((ts0 @ lexer_peek st # ts2) @ ts) e"
      unfolding sound_term_loop_def by blast
    have "consumed st st' (lexer_peek st # ts2 @ ts)"
      using consumed_trans [OF c consumed_trans [OF c1 c2]] by simp
    moreover from g env2 have
      "grammar_term (memory st) ast (stdio st) (ts0 @ lexer_peek st # ts2 @ ts) e"
      by simp
    ultimately show ?thesis by blast
  qed
qed

lemma step_term:
  assumes sp: "sound_factor n ast" and sl: "sound_term_loop n ast"
  shows "sound_term (Suc n) ast"
  unfolding sound_term_def
proof (intro allI impI)
  fix st e st'
  assume run: "parse_term (Suc n) ast st = Inr (e, st')"
  then obtain ret st1 where pr: "parse_factor n ast st = Inr (ret, st1)"
    and rest: "parse_term_loop n ast ret st1 = Inr (e, st')"
    by (auto split: sum.splits)
  from sp pr obtain ts1 where c1: "consumed st st1 ts1"
    and gr: "grammar_factor (memory st) ast (stdio st) ts1 ret"
    unfolding sound_factor_def by blast
  note env1 = consumed_env [OF c1]
  from gr env1 have "grammar_term (memory st1) ast (stdio st1) ts1 ret"
    by (simp add: g_term_factor)
  with sl rest obtain ts where c2: "consumed st1 st' ts"
    and g: "grammar_term (memory st1) ast (stdio st1) (ts1 @ ts) e"
    unfolding sound_term_loop_def by blast
  from consumed_trans [OF c1 c2] g env1 show
    "\<exists>ts. consumed st st' ts \<and> grammar_term (memory st) ast (stdio st) ts e"
    by auto
qed

lemma step_comp_loop:
  assumes sp: "sound_term n ast" and sl: "sound_comp_loop n ast"
  shows "sound_comp_loop (Suc n) ast"
  unfolding sound_comp_loop_def
proof (intro allI impI)
  fix ret st e st' ts0
  assume run: "parse_comp_loop (Suc n) ast ret st = Inr (e, st')"
    and g0: "grammar_comp (memory st) ast (stdio st) ts0 ret"
  let ?k = "tok_t (lexer_peek st)"
  show "\<exists>ts. consumed st st' ts \<and> grammar_comp (memory st) ast (stdio st) (ts0 @ ts) e"
  proof (cases "?k = TOK_DEQ \<or> ?k = TOK_NEQ \<or> ?k = TOK_GR \<or> ?k = TOK_LE
      \<or> ?k = TOK_GREQ \<or> ?k = TOK_LEEQ")
    case False
    with run have "e = ret" and "st' = st" by simp_all
    with g0 consumed_refl [of st] show ?thesis by auto
  next
    case True
    with run obtain op st1 right st2 where pb: "parse_binop st = Inr (op, st1)"
      and pr: "parse_term n ast st1 = Inr (right, st2)"
      and rest: "parse_comp_loop n ast
                   (EXPR_BINOP (combine_pos (expr_pos ret) (expr_pos right)) op ret right) st2
                 = Inr (e, st')"
      by (auto split: sum.splits)
    from parse_binop_Inr [OF pb] have c: "consumed st st1 [lexer_peek st]"
      and "mul_op ?k op \<or> add_op ?k op \<or> cmp_op ?k op"
      by blast+
    with True have op: "cmp_op ?k op" by (intro op_kind_cmp)
    from sp pr obtain ts2 where c1: "consumed st1 st2 ts2"
      and gr: "grammar_term (memory st1) ast (stdio st1) ts2 right"
      unfolding sound_term_def by blast
    note env1 = consumed_env [OF c]
    note env2 = consumed_env [OF consumed_trans [OF c c1]]
    from gr env1 have gr': "grammar_term (memory st) ast (stdio st) ts2 right" by simp
    have "grammar_comp (memory st) ast (stdio st) (ts0 @ lexer_peek st # ts2)
            (binop_node op ret right)"
      by (rule g_comp_op [OF g0 op gr'])
    then have "grammar_comp (memory st2) ast (stdio st2) (ts0 @ lexer_peek st # ts2)
            (EXPR_BINOP (combine_pos (expr_pos ret) (expr_pos right)) op ret right)"
      using env2 by (simp add: binop_node_def)
    with sl rest obtain ts where c2: "consumed st2 st' ts"
      and g: "grammar_comp (memory st2) ast (stdio st2) ((ts0 @ lexer_peek st # ts2) @ ts) e"
      unfolding sound_comp_loop_def by blast
    have "consumed st st' (lexer_peek st # ts2 @ ts)"
      using consumed_trans [OF c consumed_trans [OF c1 c2]] by simp
    moreover from g env2 have
      "grammar_comp (memory st) ast (stdio st) (ts0 @ lexer_peek st # ts2 @ ts) e"
      by simp
    ultimately show ?thesis by blast
  qed
qed

lemma step_comp:
  assumes sp: "sound_term n ast" and sl: "sound_comp_loop n ast"
  shows "sound_comp (Suc n) ast"
  unfolding sound_comp_def
proof (intro allI impI)
  fix st e st'
  assume run: "parse_comp (Suc n) ast st = Inr (e, st')"
  then obtain ret st1 where pr: "parse_term n ast st = Inr (ret, st1)"
    and rest: "parse_comp_loop n ast ret st1 = Inr (e, st')"
    by (auto split: sum.splits)
  from sp pr obtain ts1 where c1: "consumed st st1 ts1"
    and gr: "grammar_term (memory st) ast (stdio st) ts1 ret"
    unfolding sound_term_def by blast
  note env1 = consumed_env [OF c1]
  from gr env1 have "grammar_comp (memory st1) ast (stdio st1) ts1 ret"
    by (simp add: g_comp_term)
  with sl rest obtain ts where c2: "consumed st1 st' ts"
    and g: "grammar_comp (memory st1) ast (stdio st1) (ts1 @ ts) e"
    unfolding sound_comp_loop_def by blast
  from consumed_trans [OF c1 c2] g env1 show
    "\<exists>ts. consumed st st' ts \<and> grammar_comp (memory st) ast (stdio st) ts e"
    by auto
qed

lemma step_expr:
  assumes "sound_comp n ast"
  shows "sound_expr (Suc n) ast"
  using assms unfolding sound_expr_def sound_comp_def by simp

lemma parser_sound:
  "sound_primary n ast \<and> sound_args n ast \<and> sound_funcall n ast
   \<and> sound_factor_loop n ast \<and> sound_factor n ast
   \<and> sound_term_loop n ast \<and> sound_term n ast
   \<and> sound_comp_loop n ast \<and> sound_comp n ast \<and> sound_expr n ast"
proof (induction n)
  case 0
  show ?case
    by (simp add: sound_primary_def sound_args_def sound_funcall_def sound_factor_loop_def
          sound_factor_def sound_term_loop_def sound_term_def sound_comp_loop_def
          sound_comp_def sound_expr_def)
next
  case (Suc n)
  then show ?case
    by (intro conjI step_primary step_args step_funcall step_factor_loop step_factor
          step_term_loop step_term step_comp_loop step_comp step_expr) simp_all
qed

section \<open>A larger recursion bound changes no result\<close>

lemma le_res_refl: "le_res a a"
  by (simp add: le_res_def)

lemma le_res_bind:
  assumes "le_res a a'" and "\<And>x. le_res (k x) (k' x)"
  shows "le_res (case a of Inl e \<Rightarrow> Inl e | Inr x \<Rightarrow> k x) (case a' of Inl e \<Rightarrow> Inl e | Inr x \<Rightarrow> k' x)"
proof (cases a)
  case (Inl e)
  with assms(1) show ?thesis by (auto simp: le_res_def)
next
  case (Inr x)
  with assms(1) have "a' = Inr x" by (simp add: le_res_def)
  with Inr assms(2) [of x] show ?thesis by simp
qed

lemma le_res_if:
  assumes "c \<Longrightarrow> le_res a a'" and "\<not> c \<Longrightarrow> le_res b b'"
  shows "le_res (if c then a else b) (if c then a' else b')"
  using assms by simp

lemma le_res_prod:
  assumes "\<And>x y. le_res (k x y) (k' x y)"
  shows "le_res (case p of (x, y) \<Rightarrow> k x y) (case p of (x, y) \<Rightarrow> k' x y)"
  using assms by (cases p) simp

lemmas le_res_intros = le_res_bind le_res_if le_res_prod le_res_refl

lemma fuel_mono_0: "fuel_mono 0 m"
  by (simp add: fuel_mono_def le_res_def)

lemma fuel_mono_Suc:
  assumes h: "fuel_mono n m"
  shows "fuel_mono (Suc n) (Suc m)"
proof -
  note c = h [unfolded fuel_mono_def]
  note p = c [THEN conjunct1, rule_format]
  note a = c [THEN conjunct2, THEN conjunct1, rule_format]
  note f = c [THEN conjunct2, THEN conjunct2, THEN conjunct1, rule_format]
  note fl = c [THEN conjunct2, THEN conjunct2, THEN conjunct2, THEN conjunct1, rule_format]
  note fa = c [THEN conjunct2, THEN conjunct2, THEN conjunct2, THEN conjunct2, THEN conjunct1,
      rule_format]
  note tl = c [THEN conjunct2, THEN conjunct2, THEN conjunct2, THEN conjunct2, THEN conjunct2,
      THEN conjunct1, rule_format]
  note t = c [THEN conjunct2, THEN conjunct2, THEN conjunct2, THEN conjunct2, THEN conjunct2,
      THEN conjunct2, THEN conjunct1, rule_format]
  note cl = c [THEN conjunct2, THEN conjunct2, THEN conjunct2, THEN conjunct2, THEN conjunct2,
      THEN conjunct2, THEN conjunct2, THEN conjunct1, rule_format]
  note co = c [THEN conjunct2, THEN conjunct2, THEN conjunct2, THEN conjunct2, THEN conjunct2,
      THEN conjunct2, THEN conjunct2, THEN conjunct2, THEN conjunct1, rule_format]
  note e = c [THEN conjunct2, THEN conjunct2, THEN conjunct2, THEN conjunct2, THEN conjunct2,
      THEN conjunct2, THEN conjunct2, THEN conjunct2, THEN conjunct2, rule_format]
  show ?thesis
    unfolding fuel_mono_def
  proof (intro conjI allI)
    fix ast st
    show "le_res (parse_primary (Suc n) ast st) (parse_primary (Suc m) ast st)"
      by (simp only: parse_primary.simps Let_def) (intro le_res_intros f e)
    show "le_res (parse_factor (Suc n) ast st) (parse_factor (Suc m) ast st)"
      by (simp only: parse_factor.simps) (intro le_res_intros p fl)
    show "le_res (parse_term (Suc n) ast st) (parse_term (Suc m) ast st)"
      by (simp only: parse_term.simps) (intro le_res_intros fa tl)
    show "le_res (parse_comp (Suc n) ast st) (parse_comp (Suc m) ast st)"
      by (simp only: parse_comp.simps) (intro le_res_intros t cl)
    show "le_res (parse_expr (Suc n) ast st) (parse_expr (Suc m) ast st)"
      by (simp only: parse_expr.simps) (intro le_res_intros co)
  next
    fix ast args st
    show "le_res (parse_funcall_args (Suc n) ast args st) (parse_funcall_args (Suc m) ast args st)"
      by (simp only: parse_funcall_args.simps) (intro le_res_intros a e)
  next
    fix ast f' st
    show "le_res (parse_funcall (Suc n) ast f' st) (parse_funcall (Suc m) ast f' st)"
      by (simp only: parse_funcall.simps) (intro le_res_intros a)
  next
    fix ast ret st
    show "le_res (parse_factor_loop (Suc n) ast ret st) (parse_factor_loop (Suc m) ast ret st)"
      by (simp only: parse_factor_loop.simps) (intro le_res_intros p fl)
    show "le_res (parse_term_loop (Suc n) ast ret st) (parse_term_loop (Suc m) ast ret st)"
      by (simp only: parse_term_loop.simps) (intro le_res_intros fa tl)
    show "le_res (parse_comp_loop (Suc n) ast ret st) (parse_comp_loop (Suc m) ast ret st)"
      by (simp only: parse_comp_loop.simps) (intro le_res_intros t cl)
  qed
qed

lemma fuel_mono_le: "n \<le> m \<Longrightarrow> fuel_mono n m"
proof (induction n arbitrary: m)
  case 0
  show ?case by (rule fuel_mono_0)
next
  case (Suc n)
  then obtain m' where "m = Suc m'" and "n \<le> m'" by (cases m) auto
  with Suc.IH [of m'] show ?case by (simp add: fuel_mono_Suc)
qed

lemma parse_expr_fuel:
  assumes "parse_expr n ast st = Inr r" and "n \<le> m"
  shows "parse_expr m ast st = Inr r"
proof -
  from fuel_mono_le [OF assms(2)]
  have "\<forall>ast st. le_res (parse_expr n ast st) (parse_expr m ast st)"
    unfolding fuel_mono_def by (elim conjE)
  then have "le_res (parse_expr n ast st) (parse_expr m ast st)" by (elim allE)
  with assms(1) show ?thesis by (simp add: le_res_def)
qed

section \<open>Precedence and associativity\<close>

lemma example_add_mul_7:
  assumes "tok_t a = TOK_SYM" "tok_t b = TOK_SYM" "tok_t c = TOK_SYM"
    and "tok_t o1 = TOK_ADD" "tok_t o2 = TOK_MUL" "tok_t nl = TOK_NEWLINE"
    and "toks st = a # o1 # b # o2 # c # nl # rest"
  shows "parse_expr 7 ast st
         = Inr (binop_node BINOP_ADD (EXPR_VAR (tok_pos a))
                  (binop_node BINOP_MUL (EXPR_VAR (tok_pos b)) (EXPR_VAR (tok_pos c))),
                st\<lparr>toks := nl # rest\<rparr>)"
  using assms
  by (simp add: eval_nat_numeral lexer_next_def lexer_peek_def parse_binop_def binop_node_def)

lemma example_sub_sub_7:
  assumes "tok_t a = TOK_SYM" "tok_t b = TOK_SYM" "tok_t c = TOK_SYM"
    and "tok_t o1 = TOK_SUB" "tok_t o2 = TOK_SUB" "tok_t nl = TOK_NEWLINE"
    and "toks st = a # o1 # b # o2 # c # nl # rest"
  shows "parse_expr 7 ast st
         = Inr (binop_node BINOP_SUB
                  (binop_node BINOP_SUB (EXPR_VAR (tok_pos a)) (EXPR_VAR (tok_pos b)))
                  (EXPR_VAR (tok_pos c)),
                st\<lparr>toks := nl # rest\<rparr>)"
  using assms
  by (simp add: eval_nat_numeral lexer_next_def lexer_peek_def parse_binop_def binop_node_def)

lemma example_eq_eq_7:
  assumes "tok_t a = TOK_SYM" "tok_t b = TOK_SYM" "tok_t c = TOK_SYM"
    and "tok_t o1 = TOK_DEQ" "tok_t o2 = TOK_DEQ" "tok_t nl = TOK_NEWLINE"
    and "toks st = a # o1 # b # o2 # c # nl # rest"
  shows "parse_expr 7 ast st
         = Inr (binop_node BINOP_EQ
                  (binop_node BINOP_EQ (EXPR_VAR (tok_pos a)) (EXPR_VAR (tok_pos b)))
                  (EXPR_VAR (tok_pos c)),
                st\<lparr>toks := nl # rest\<rparr>)"
  using assms
  by (simp add: eval_nat_numeral lexer_next_def lexer_peek_def parse_binop_def binop_node_def)


text \<open>
  Claim C4. Whatever \<^verbatim>\<open>parse_expr\<close> accepts, the tree it returns is the one the grammar of the
  spec gives to exactly the tokens it took: comparison is the lowest level, additive the
  next, multiplicative the highest, and at each level the left operand of an operator is of
  the operator's own level and the right one of the next higher level (left-associative).
  In particular, on three names with two operators between them and a line end after,
  \<^verbatim>\<open>a + b * c\<close> is parsed as \<^verbatim>\<open>a + (b * c)\<close>, \<^verbatim>\<open>a - b - c\<close> as \<^verbatim>\<open>(a - b) - c\<close> and \<^verbatim>\<open>a == b == c\<close> as the
  ordinary left-nested chain \<^verbatim>\<open>(a == b) == c\<close>, for every recursion bound of at least 7.
\<close>

theorem parse_expr_precedence:
  "(parse_expr n ast st = Inr (e, st') \<longrightarrow>
      (\<exists>ts. consumed st st' ts \<and> grammar_comp (memory st) ast (stdio st) ts e))
   \<and> (7 \<le> n \<and> tok_t a = TOK_SYM \<and> tok_t b = TOK_SYM \<and> tok_t c = TOK_SYM
        \<and> tok_t nl = TOK_NEWLINE \<and> toks st = a # o1 # b # o2 # c # nl # rest \<longrightarrow>
      (tok_t o1 = TOK_ADD \<and> tok_t o2 = TOK_MUL \<longrightarrow>
         parse_expr n ast st
         = Inr (binop_node BINOP_ADD (EXPR_VAR (tok_pos a))
                  (binop_node BINOP_MUL (EXPR_VAR (tok_pos b)) (EXPR_VAR (tok_pos c))),
                st\<lparr>toks := nl # rest\<rparr>))
      \<and> (tok_t o1 = TOK_SUB \<and> tok_t o2 = TOK_SUB \<longrightarrow>
         parse_expr n ast st
         = Inr (binop_node BINOP_SUB
                  (binop_node BINOP_SUB (EXPR_VAR (tok_pos a)) (EXPR_VAR (tok_pos b)))
                  (EXPR_VAR (tok_pos c)),
                st\<lparr>toks := nl # rest\<rparr>))
      \<and> (tok_t o1 = TOK_DEQ \<and> tok_t o2 = TOK_DEQ \<longrightarrow>
         parse_expr n ast st
         = Inr (binop_node BINOP_EQ
                  (binop_node BINOP_EQ (EXPR_VAR (tok_pos a)) (EXPR_VAR (tok_pos b)))
                  (EXPR_VAR (tok_pos c)),
                st\<lparr>toks := nl # rest\<rparr>)))"
proof (intro conjI impI)
  assume "parse_expr n ast st = Inr (e, st')"
  with parser_sound [of n ast]
  show "\<exists>ts. consumed st st' ts \<and> grammar_comp (memory st) ast (stdio st) ts e"
    unfolding sound_expr_def by blast
next
  assume h: "7 \<le> n \<and> tok_t a = TOK_SYM \<and> tok_t b = TOK_SYM \<and> tok_t c = TOK_SYM
        \<and> tok_t nl = TOK_NEWLINE \<and> toks st = a # o1 # b # o2 # c # nl # rest"
    and o: "tok_t o1 = TOK_ADD \<and> tok_t o2 = TOK_MUL"
  from h have n: "7 \<le> n" and ta: "tok_t a = TOK_SYM" and tb: "tok_t b = TOK_SYM"
    and tc: "tok_t c = TOK_SYM" and tn: "tok_t nl = TOK_NEWLINE"
    and ts: "toks st = a # o1 # b # o2 # c # nl # rest"
    by blast+
  from o have t1: "tok_t o1 = TOK_ADD" and t2: "tok_t o2 = TOK_MUL" by blast+
  have "parse_expr 7 ast st
         = Inr (binop_node BINOP_ADD (EXPR_VAR (tok_pos a))
                  (binop_node BINOP_MUL (EXPR_VAR (tok_pos b)) (EXPR_VAR (tok_pos c))),
                st\<lparr>toks := nl # rest\<rparr>)"
    by (rule example_add_mul_7 [OF ta tb tc t1 t2 tn ts])
  then show "parse_expr n ast st
         = Inr (binop_node BINOP_ADD (EXPR_VAR (tok_pos a))
                  (binop_node BINOP_MUL (EXPR_VAR (tok_pos b)) (EXPR_VAR (tok_pos c))),
                st\<lparr>toks := nl # rest\<rparr>)"
    using n by (rule parse_expr_fuel)
next
  assume h: "7 \<le> n \<and> tok_t a = TOK_SYM \<and> tok_t b = TOK_SYM \<and> tok_t c = TOK_SYM
        \<and> tok_t nl = TOK_NEWLINE \<and> toks st = a # o1 # b # o2 # c # nl # rest"
    and o: "tok_t o1 = TOK_SUB \<and> tok_t o2 = TOK_SUB"
  from h have n: "7 \<le> n" and ta: "tok_t a = TOK_SYM" and tb: "tok_t b = TOK_SYM"
    and tc: "tok_t c = TOK_SYM" and tn: "tok_t nl = TOK_NEWLINE"
    and ts: "toks st = a # o1 # b # o2 # c # nl # rest"
    by blast+
  from o have t1: "tok_t o1 = TOK_SUB" and t2: "tok_t o2 = TOK_SUB" by blast+
  have "parse_expr 7 ast st
         = Inr (binop_node BINOP_SUB
                  (binop_node BINOP_SUB (EXPR_VAR (tok_pos a)) (EXPR_VAR (tok_pos b)))
                  (EXPR_VAR (tok_pos c)),
                st\<lparr>toks := nl # rest\<rparr>)"
    by (rule example_sub_sub_7 [OF ta tb tc t1 t2 tn ts])
  then show "parse_expr n ast st
         = Inr (binop_node BINOP_SUB
                  (binop_node BINOP_SUB (EXPR_VAR (tok_pos a)) (EXPR_VAR (tok_pos b)))
                  (EXPR_VAR (tok_pos c)),
                st\<lparr>toks := nl # rest\<rparr>)"
    using n by (rule parse_expr_fuel)
next
  assume h: "7 \<le> n \<and> tok_t a = TOK_SYM \<and> tok_t b = TOK_SYM \<and> tok_t c = TOK_SYM
        \<and> tok_t nl = TOK_NEWLINE \<and> toks st = a # o1 # b # o2 # c # nl # rest"
    and o: "tok_t o1 = TOK_DEQ \<and> tok_t o2 = TOK_DEQ"
  from h have n: "7 \<le> n" and ta: "tok_t a = TOK_SYM" and tb: "tok_t b = TOK_SYM"
    and tc: "tok_t c = TOK_SYM" and tn: "tok_t nl = TOK_NEWLINE"
    and ts: "toks st = a # o1 # b # o2 # c # nl # rest"
    by blast+
  from o have t1: "tok_t o1 = TOK_DEQ" and t2: "tok_t o2 = TOK_DEQ" by blast+
  have "parse_expr 7 ast st
         = Inr (binop_node BINOP_EQ
                  (binop_node BINOP_EQ (EXPR_VAR (tok_pos a)) (EXPR_VAR (tok_pos b)))
                  (EXPR_VAR (tok_pos c)),
                st\<lparr>toks := nl # rest\<rparr>)"
    by (rule example_eq_eq_7 [OF ta tb tc t1 t2 tn ts])
  then show "parse_expr n ast st
         = Inr (binop_node BINOP_EQ
                  (binop_node BINOP_EQ (EXPR_VAR (tok_pos a)) (EXPR_VAR (tok_pos b)))
                  (EXPR_VAR (tok_pos c)),
                st\<lparr>toks := nl # rest\<rparr>)"
    using n by (rule parse_expr_fuel)
qed

theorem parse_expr_precedence_witness:
  "parse_expr 9 ex_ast (ex_state 0 (drop 13 ex_toks))
     = Inr (binop_node BINOP_ADD (EXPR_VAR \<lparr>pos_start = 4126, pos_sz = 1\<rparr>)
              (binop_node BINOP_MUL (EXPR_VAR \<lparr>pos_start = 4130, pos_sz = 1\<rparr>)
                 (EXPR_VAR \<lparr>pos_start = 4134, pos_sz = 1\<rparr>)),
            ex_state 0 (drop 18 ex_toks))
   \<and> grammar_comp ex_buf ex_ast ex_io (take 5 (drop 13 ex_toks))
        (binop_node BINOP_ADD (EXPR_VAR \<lparr>pos_start = 4126, pos_sz = 1\<rparr>)
           (binop_node BINOP_MUL (EXPR_VAR \<lparr>pos_start = 4130, pos_sz = 1\<rparr>)
              (EXPR_VAR \<lparr>pos_start = 4134, pos_sz = 1\<rparr>)))"
proof -
  let ?st = "ex_state 0 (drop 13 ex_toks)"
  let ?st' = "ex_state 0 (drop 18 ex_toks)"
  let ?e = "binop_node BINOP_ADD (EXPR_VAR \<lparr>pos_start = 4126, pos_sz = 1\<rparr>)
              (binop_node BINOP_MUL (EXPR_VAR \<lparr>pos_start = 4130, pos_sz = 1\<rparr>)
                 (EXPR_VAR \<lparr>pos_start = 4134, pos_sz = 1\<rparr>))"
  let ?a = "tk TOK_SYM 4126 1 INTLIT_I64_NONE"
  let ?o1 = "tk TOK_ADD 4128 1 INTLIT_I64_NONE"
  let ?b = "tk TOK_SYM 4130 1 INTLIT_I64_NONE"
  let ?o2 = "tk TOK_MUL 4132 1 INTLIT_I64_NONE"
  let ?c = "tk TOK_SYM 4134 1 INTLIT_I64_NONE"
  let ?nl = "tk TOK_NEWLINE 4135 1 INTLIT_I64_NONE"
  have toks: "toks ?st = ?a # ?o1 # ?b # ?o2 # ?c # ?nl # drop 19 ex_toks"
    by (simp add: ex_state_def sample_state_def ex_buf_def sample_buf_def ex_toks_def)
  have st': "?st\<lparr>toks := ?nl # drop 19 ex_toks\<rparr> = ?st'"
    by (simp add: ex_state_def sample_state_def ex_buf_def sample_buf_def ex_toks_def)
  note inst = parse_expr_precedence [of 9 ex_ast ?st ?e ?st' ?a ?b ?c ?nl ?o1 ?o2 "drop 19 ex_toks"]
  have run: "parse_expr 9 ex_ast ?st = Inr (?e, ?st')"
    using inst toks st' by (simp add: tk_def)
  with inst obtain ts where c: "consumed ?st ?st' ts"
    and g: "grammar_comp (memory ?st) ex_ast (stdio ?st) ts ?e"
    by blast
  from c have "drop 13 ex_toks = ts @ drop 18 ex_toks"
    by (simp add: consumed_def ex_state_def sample_state_def ex_buf_def sample_buf_def)
  then have "ts = take 5 (drop 13 ex_toks)"
    by (simp add: ex_toks_def)
  with g have "grammar_comp ex_buf ex_ast ex_io (take 5 (drop 13 ex_toks)) ?e"
    by (simp add: ex_state_def sample_state_def ex_buf_def sample_buf_def)
  with run show ?thesis by simp
qed

section \<open>Function headers\<close>

lemma parse_type_Inr:
  assumes "parse_type st = Inr (ty, st')"
  shows "type_of_tok (tok_t (lexer_peek st)) = Some ty \<and> consumed st st' [lexer_peek st]"
proof -
  obtain tok0 st0 where n: "lexer_next st = (tok0, st0)" by (cases "lexer_next st")
  with assms have k: "type_of_tok (tok_t tok0) = Some ty" and s: "st' = st0"
    by (auto simp: parse_type_def split: if_splits)
  from k have "tok_t tok0 \<noteq> TOK_EOF" by auto
  with n have c: "consumed st st0 [tok0]" by (rule lexer_next_Pair)
  then have "toks st = tok0 # toks st0" by (simp add: consumed_def)
  then have "lexer_peek st = tok0" by (rule lexer_peek_cons)
  with c k s show ?thesis by simp
qed

lemma parse_params_stops:
  "parse_params params st = Inr (r, st') \<Longrightarrow>
   \<exists>ts. consumed st st' ts \<and> (\<forall>t \<in> set ts. tok_t t \<noteq> TOK_RPAREN)
        \<and> tok_t (lexer_peek st') = TOK_RPAREN"
proof (induction params st arbitrary: r st' rule: parse_params.induct)
  case (1 params st)
  show ?case
  proof (cases "tok_t (lexer_peek st) \<noteq> TOK_RPAREN")
    case False
    with "1.prems" have "st' = st" by simp
    with False consumed_refl [of st] show ?thesis by auto
  next
    case True
    with "1.prems" obtain name_tok st1 ty st2 where
      ex: "expect TOK_SYM ''expected param name'' st = Inr (name_tok, st1)"
      and pt: "parse_type st1 = Inr (ty, st2)"
      and rest: "parse_params (params @ [\<lparr>param_name = tok_pos name_tok, param_type = ty\<rparr>])
                   (if tok_t (lexer_peek st2) = TOK_COMMA then snd (lexer_next st2) else st2)
                 = Inr (r, st')"
      by (auto split: sum.splits)
    let ?st3 = "if tok_t (lexer_peek st2) = TOK_COMMA then snd (lexer_next st2) else st2"
    from expect_Inr [OF ex] have k1: "tok_t name_tok = TOK_SYM" and c1: "consumed st st1 [name_tok]"
      by simp_all
    from parse_type_Inr [OF pt] have k2: "type_of_tok (tok_t (lexer_peek st1)) = Some ty"
      and c2: "consumed st1 st2 [lexer_peek st1]"
      by simp_all
    from k2 have k2': "tok_t (lexer_peek st1) \<noteq> TOK_RPAREN" by auto
    have "\<exists>ts3. consumed st2 ?st3 ts3 \<and> (\<forall>t \<in> set ts3. tok_t t \<noteq> TOK_RPAREN)"
    proof (cases "tok_t (lexer_peek st2) = TOK_COMMA")
      case c: True
      then have "consumed st2 (snd (lexer_next st2)) [lexer_peek st2]"
        using lexer_next_consumed [of st2] by simp
      with c show ?thesis by auto
    next
      case False
      with consumed_refl [of st2] show ?thesis by auto
    qed
    then obtain ts3 where c3: "consumed st2 ?st3 ts3"
      and k3: "\<forall>t \<in> set ts3. tok_t t \<noteq> TOK_RPAREN"
      by blast
    from "1.IH" [OF True ex refl pt refl rest]
    obtain ts4 where c4: "consumed ?st3 st' ts4"
      and k4: "\<forall>t \<in> set ts4. tok_t t \<noteq> TOK_RPAREN"
      and stop: "tok_t (lexer_peek st') = TOK_RPAREN"
      by blast
    have "consumed st st' (name_tok # lexer_peek st1 # ts3 @ ts4)"
      using consumed_trans [OF c1 consumed_trans [OF c2 consumed_trans [OF c3 c4]]] by simp
    moreover have "\<forall>t \<in> set (name_tok # lexer_peek st1 # ts3 @ ts4). tok_t t \<noteq> TOK_RPAREN"
      using k1 k2' k3 k4 by auto
    ultimately show ?thesis using stop by blast
  qed
qed

lemma first_match_unique:
  assumes "xs @ x # r = ys @ y # r'" and "P x" and "P y"
    and "\<forall>t \<in> set xs. \<not> P t" and "\<forall>t \<in> set ys. \<not> P t"
  shows "xs = ys \<and> x = y \<and> r = r'"
  using assms
proof (induction xs arbitrary: ys)
  case Nil
  then show ?case by (cases ys) auto
next
  case (Cons a xs)
  then show ?case by (cases ys) auto
qed


lemma bind_pair_Inr:
  assumes "(case a of Inl e \<Rightarrow> Inl e | Inr (x, y) \<Rightarrow> k x y) = Inr r"
  obtains x y where "a = Inr (x, y)" and "k x y = Inr r"
  using assms by (cases a) (auto split: prod.splits)

text \<open>
  Claim C7. In a function that \<^verbatim>\<open>parse_fn\<close> accepts, let \<open>rp\<close> be the closing parenthesis of the
  parameter list (the first one after the opening parenthesis). When the token after \<open>rp\<close>
  is the opening brace of the body, the recorded return type is \<^verbatim>\<open>void\<close>; otherwise that token
  is a type name and the recorded return type is the type it names.
\<close>

theorem parse_fn_ret_type:
  assumes run: "parse_fn n ast st = Inr (f, st')"
    and toks: "toks st = name # lp # ps @ rp # rest"
    and ps: "\<forall>t \<in> set ps. tok_t t \<noteq> TOK_RPAREN"
    and rp: "tok_t rp = TOK_RPAREN"
  shows "(tok_t (lexer_peek (st\<lparr>toks := rest\<rparr>)) = TOK_LCURLY \<longrightarrow> fn_ret_type f = void_const)
    \<and> (tok_t (lexer_peek (st\<lparr>toks := rest\<rparr>)) \<noteq> TOK_LCURLY \<longrightarrow>
          type_of_tok (tok_t (lexer_peek (st\<lparr>toks := rest\<rparr>))) = Some (fn_ret_type f))"
proof -
  note r0 = run [unfolded parse_fn_def Let_def]
  from r0 obtain name_tok st1 where
    e1: "expect TOK_SYM ''expected function name'' st = Inr (name_tok, st1)"
    and r1: "(case expect TOK_LPAREN msg_expected_lparen st1 of
               Inl e \<Rightarrow> Inl e
             | Inr (lp, st2) \<Rightarrow>
                 (case parse_params [] st2 of
                    Inl e \<Rightarrow> Inl e
                  | Inr (params, st3) \<Rightarrow>
                      (case (if tok_t (lexer_peek (snd (lexer_next st3))) \<noteq> TOK_LCURLY
                             then parse_type (snd (lexer_next st3))
                             else Inr (void_const, snd (lexer_next st3))) of
                         Inl e \<Rightarrow> Inl e
                       | Inr (ret_type, st5) \<Rightarrow>
                           (case parse_block n ast st5 of
                              Inl e \<Rightarrow> Inl e
                            | Inr (body, st6) \<Rightarrow>
                                Inr (\<lparr>fn_name = tok_pos name_tok, fn_pos = tok_pos name_tok,
                                      fn_params = params, fn_ret_type = ret_type,
                                      fn_body = body\<rparr>, st6))))) = Inr (f, st')"
    by (rule bind_pair_Inr)
  from r1 obtain lp_tok st2 where
    e2: "expect TOK_LPAREN msg_expected_lparen st1 = Inr (lp_tok, st2)"
    and r2: "(case parse_params [] st2 of
                    Inl e \<Rightarrow> Inl e
                  | Inr (params, st3) \<Rightarrow>
                      (case (if tok_t (lexer_peek (snd (lexer_next st3))) \<noteq> TOK_LCURLY
                             then parse_type (snd (lexer_next st3))
                             else Inr (void_const, snd (lexer_next st3))) of
                         Inl e \<Rightarrow> Inl e
                       | Inr (ret_type, st5) \<Rightarrow>
                           (case parse_block n ast st5 of
                              Inl e \<Rightarrow> Inl e
                            | Inr (body, st6) \<Rightarrow>
                                Inr (\<lparr>fn_name = tok_pos name_tok, fn_pos = tok_pos name_tok,
                                      fn_params = params, fn_ret_type = ret_type,
                                      fn_body = body\<rparr>, st6)))) = Inr (f, st')"
    by (rule bind_pair_Inr)
  from r2 obtain params st3 where
    pp: "parse_params [] st2 = Inr (params, st3)"
    and r3: "(case (if tok_t (lexer_peek (snd (lexer_next st3))) \<noteq> TOK_LCURLY
                             then parse_type (snd (lexer_next st3))
                             else Inr (void_const, snd (lexer_next st3))) of
                         Inl e \<Rightarrow> Inl e
                       | Inr (ret_type, st5) \<Rightarrow>
                           (case parse_block n ast st5 of
                              Inl e \<Rightarrow> Inl e
                            | Inr (body, st6) \<Rightarrow>
                                Inr (\<lparr>fn_name = tok_pos name_tok, fn_pos = tok_pos name_tok,
                                      fn_params = params, fn_ret_type = ret_type,
                                      fn_body = body\<rparr>, st6))) = Inr (f, st')"
    by (rule bind_pair_Inr)
  from r3 obtain ret_type st5 where
    rt: "(if tok_t (lexer_peek (snd (lexer_next st3))) \<noteq> TOK_LCURLY
              then parse_type (snd (lexer_next st3))
              else Inr (void_const, snd (lexer_next st3))) = Inr (ret_type, st5)"
    and r4: "(case parse_block n ast st5 of
                              Inl e \<Rightarrow> Inl e
                            | Inr (body, st6) \<Rightarrow>
                                Inr (\<lparr>fn_name = tok_pos name_tok, fn_pos = tok_pos name_tok,
                                      fn_params = params, fn_ret_type = ret_type,
                                      fn_body = body\<rparr>, st6)) = Inr (f, st')"
    by (rule bind_pair_Inr)
  from r4 obtain body st6 where
    "Inr (\<lparr>fn_name = tok_pos name_tok, fn_pos = tok_pos name_tok,
            fn_params = params, fn_ret_type = ret_type, fn_body = body\<rparr>, st6)
       = (Inr (f, st') :: failure + Function \<times> pstate)"
    by (rule bind_pair_Inr)
  then have f: "fn_ret_type f = ret_type" by auto
  let ?st4 = "snd (lexer_next st3)"
  from expect_Inr [OF e1] have c1: "consumed st st1 [name_tok]" by simp
  from expect_Inr [OF e2] have c2: "consumed st1 st2 [lp_tok]" by simp
  from parse_params_stops [OF pp] obtain ts where c3: "consumed st2 st3 ts"
    and k3: "\<forall>t \<in> set ts. tok_t t \<noteq> TOK_RPAREN"
    and stop: "tok_t (lexer_peek st3) = TOK_RPAREN"
    by blast
  from stop have c4: "consumed st3 ?st4 [lexer_peek st3]"
    using lexer_next_consumed [of st3] by simp
  have c: "consumed st ?st4 (name_tok # lp_tok # ts @ [lexer_peek st3])"
    using consumed_trans [OF c1 consumed_trans [OF c2 consumed_trans [OF c3 c4]]] by simp
  then have "name # lp # ps @ rp # rest = name_tok # lp_tok # ts @ lexer_peek st3 # toks ?st4"
    using toks by (simp add: consumed_def)
  then have "ps @ rp # rest = ts @ lexer_peek st3 # toks ?st4" by simp
  from first_match_unique [OF this, of "\<lambda>t. tok_t t = TOK_RPAREN"] rp stop ps k3
  have "rest = toks ?st4" by simp
  with c have st4: "?st4 = st\<lparr>toks := rest\<rparr>" by (simp add: consumed_def)
  show ?thesis
  proof (cases "tok_t (lexer_peek ?st4) = TOK_LCURLY")
    case True
    with rt f have "fn_ret_type f = void_const" by simp
    with True st4 show ?thesis by simp
  next
    case False
    with rt have "parse_type ?st4 = Inr (ret_type, st5)" by simp
    from parse_type_Inr [OF this] f
    have "type_of_tok (tok_t (lexer_peek ?st4)) = Some (fn_ret_type f)" by simp
    with False st4 show ?thesis by simp
  qed
qed

theorem parse_fn_ret_type_witness:
  "parse_fn 6 ex_ast (sample_state typed_src 0 typed_toks)
     = Inr (\<lparr>fn_name = \<lparr>pos_start = 4096, pos_sz = 2\<rparr>, fn_pos = \<lparr>pos_start = 4096, pos_sz = 2\<rparr>,
             fn_params = [\<lparr>param_name = \<lparr>pos_start = 4099, pos_sz = 1\<rparr>, param_type = I64_const\<rparr>],
             fn_ret_type = I64_const,
             fn_body = [STMT_RETURN (Some (EXPR_VAR \<lparr>pos_start = 4119, pos_sz = 1\<rparr>))]\<rparr>,
            sample_state typed_src 0 [])
   \<and> tok_t (lexer_peek (sample_state typed_src 0 (drop 5 typed_toks))) = TOK_I64
   \<and> type_of_tok TOK_I64 = Some I64_const
   \<and> parse_fn 6 ex_ast (sample_state void_src 0 void_toks)
     = Inr (\<lparr>fn_name = \<lparr>pos_start = 4096, pos_sz = 1\<rparr>, fn_pos = \<lparr>pos_start = 4096, pos_sz = 1\<rparr>,
             fn_params = [], fn_ret_type = void_const, fn_body = []\<rparr>,
            sample_state void_src 0 [])
   \<and> tok_t (lexer_peek (sample_state void_src 0 (drop 3 void_toks))) = TOK_LCURLY"
proof -
  let ?F = "\<lparr>fn_name = \<lparr>pos_start = 4096, pos_sz = 2\<rparr>, fn_pos = \<lparr>pos_start = 4096, pos_sz = 2\<rparr>,
             fn_params = [\<lparr>param_name = \<lparr>pos_start = 4099, pos_sz = 1\<rparr>, param_type = I64_const\<rparr>],
             fn_ret_type = fn_ret_type (fst (projr (parse_fn 6 ex_ast (sample_state typed_src 0 typed_toks)))),
             fn_body = [STMT_RETURN (Some (EXPR_VAR \<lparr>pos_start = 4119, pos_sz = 1\<rparr>))]\<rparr>"
  let ?G = "\<lparr>fn_name = \<lparr>pos_start = 4096, pos_sz = 1\<rparr>, fn_pos = \<lparr>pos_start = 4096, pos_sz = 1\<rparr>,
             fn_params = [],
             fn_ret_type = fn_ret_type (fst (projr (parse_fn 6 ex_ast (sample_state void_src 0 void_toks)))),
             fn_body = []\<rparr>"
  have run1: "parse_fn 6 ex_ast (sample_state typed_src 0 typed_toks)
              = Inr (?F, sample_state typed_src 0 [])"
    by code_simp
  have toks1: "toks (sample_state typed_src 0 typed_toks)
               = typed_toks ! 0 # typed_toks ! 1 # take 2 (drop 2 typed_toks) @ typed_toks ! 4
                   # drop 5 typed_toks"
    by (simp add: sample_state_def typed_toks_def)
  have ps1: "\<forall>t \<in> set (take 2 (drop 2 typed_toks)). tok_t t \<noteq> TOK_RPAREN"
    by (simp add: typed_toks_def tk_def)
  have rp1: "tok_t (typed_toks ! 4) = TOK_RPAREN"
    by (simp add: typed_toks_def tk_def)
  have st1: "(sample_state typed_src 0 typed_toks)\<lparr>toks := drop 5 typed_toks\<rparr>
             = sample_state typed_src 0 (drop 5 typed_toks)"
    by (simp add: sample_state_def)
  have peek1: "tok_t (lexer_peek (sample_state typed_src 0 (drop 5 typed_toks))) = TOK_I64"
    by (simp add: lexer_peek_def sample_state_def typed_toks_def tk_def)
  from parse_fn_ret_type [OF run1 toks1 ps1 rp1] st1 peek1
  have r1: "fn_ret_type ?F = I64_const" by simp
  have run2: "parse_fn 6 ex_ast (sample_state void_src 0 void_toks)
              = Inr (?G, sample_state void_src 0 [])"
    by code_simp
  have toks2: "toks (sample_state void_src 0 void_toks)
               = void_toks ! 0 # void_toks ! 1 # [] @ void_toks ! 2 # drop 3 void_toks"
    by (simp add: sample_state_def void_toks_def)
  have ps2: "\<forall>t \<in> set []. tok_t t \<noteq> TOK_RPAREN"
    by simp
  have rp2: "tok_t (void_toks ! 2) = TOK_RPAREN"
    by (simp add: void_toks_def tk_def)
  have st2: "(sample_state void_src 0 void_toks)\<lparr>toks := drop 3 void_toks\<rparr>
             = sample_state void_src 0 (drop 3 void_toks)"
    by (simp add: sample_state_def)
  have peek2: "tok_t (lexer_peek (sample_state void_src 0 (drop 3 void_toks))) = TOK_LCURLY"
    by (simp add: lexer_peek_def sample_state_def void_toks_def tk_def)
  from parse_fn_ret_type [OF run2 toks2 ps2 rp2] st2 peek2
  have r2: "fn_ret_type ?G = void_const" by simp
  from run1 r1 have "parse_fn 6 ex_ast (sample_state typed_src 0 typed_toks)
     = Inr (\<lparr>fn_name = \<lparr>pos_start = 4096, pos_sz = 2\<rparr>, fn_pos = \<lparr>pos_start = 4096, pos_sz = 2\<rparr>,
             fn_params = [\<lparr>param_name = \<lparr>pos_start = 4099, pos_sz = 1\<rparr>, param_type = I64_const\<rparr>],
             fn_ret_type = I64_const,
             fn_body = [STMT_RETURN (Some (EXPR_VAR \<lparr>pos_start = 4119, pos_sz = 1\<rparr>))]\<rparr>,
            sample_state typed_src 0 [])"
    by simp
  moreover from run2 r2 have "parse_fn 6 ex_ast (sample_state void_src 0 void_toks)
     = Inr (\<lparr>fn_name = \<lparr>pos_start = 4096, pos_sz = 1\<rparr>, fn_pos = \<lparr>pos_start = 4096, pos_sz = 1\<rparr>,
             fn_params = [], fn_ret_type = void_const, fn_body = []\<rparr>,
            sample_state void_src 0 [])"
    by simp
  moreover have "type_of_tok TOK_I64 = Some I64_const" by simp
  ultimately show ?thesis using peek1 peek2 by simp
qed

section \<open>Let statements\<close>

lemma parse_let_init_only:
  assumes "toks st = first # name # middle # rest" and "tok_t name = TOK_SYM"
    and "tok_t middle = TOK_EQ"
    and "parse_expr n ast (st\<lparr>toks := rest\<rparr>) = Inr (e, st4)"
    and "toks st4 = nl # rest'" and "tok_t nl = TOK_NEWLINE"
  shows "parse_let n ast mut st
         = Inr (STMT_LET (combine_pos (tok_pos first) (tok_pos nl)) (tok_pos name)
                  None (Some e) mut, st4\<lparr>toks := rest'\<rparr>)"
  using assms by (simp add: parse_let_def lexer_next_def expect_def)

lemma parse_type_tok:
  assumes "toks st = ty # rest" and "type_of_tok (tok_t ty) = Some T"
  shows "parse_type st = Inr (T, st\<lparr>toks := rest\<rparr>)"
proof -
  from assms(2) have "tok_t ty \<in> {TOK_U8, TOK_U16, TOK_U32, TOK_U64, TOK_I8, TOK_I16, TOK_I32,
      TOK_I64, TOK_BOOL}"
    by (cases "tok_t ty") simp_all
  with assms show ?thesis
    by (auto simp: parse_type_def lexer_next_def)
qed

lemma parse_let_type_only:
  assumes "toks st = first # name # middle # ty # nl # rest'" and "tok_t name = TOK_SYM"
    and "tok_t middle = TOK_COLON" and "type_of_tok (tok_t ty) = Some T"
    and "tok_t nl = TOK_NEWLINE"
  shows "parse_let n ast mut st
         = Inr (STMT_LET (combine_pos (tok_pos first) (tok_pos nl)) (tok_pos name)
                  (Some T) None mut, st\<lparr>toks := rest'\<rparr>)"
proof -
  have "parse_type (st\<lparr>toks := ty # nl # rest'\<rparr>) = Inr (T, st\<lparr>toks := nl # rest'\<rparr>)"
    using parse_type_tok [of "st\<lparr>toks := ty # nl # rest'\<rparr>" ty "nl # rest'" T] assms(4) by simp
  with assms show ?thesis
    by (simp add: parse_let_def lexer_next_def expect_def)
qed

lemma parse_let_type_and_init:
  assumes "toks st = first # name # middle # ty # eq # rest" and "tok_t name = TOK_SYM"
    and "tok_t middle = TOK_COLON" and "type_of_tok (tok_t ty) = Some T"
    and "tok_t eq = TOK_EQ"
    and "parse_expr n ast (st\<lparr>toks := rest\<rparr>) = Inr (e, st6)"
    and "toks st6 = nl # rest'" and "tok_t nl = TOK_NEWLINE"
  shows "parse_let n ast mut st
         = Inr (STMT_LET (combine_pos (tok_pos first) (tok_pos nl)) (tok_pos name)
                  (Some T) (Some e) mut, st6\<lparr>toks := rest'\<rparr>)"
proof -
  have "parse_type (st\<lparr>toks := ty # eq # rest\<rparr>) = Inr (T, st\<lparr>toks := eq # rest\<rparr>)"
    using parse_type_tok [of "st\<lparr>toks := ty # eq # rest\<rparr>" ty "eq # rest" T] assms(4) by simp
  with assms show ?thesis
    by (simp add: parse_let_def lexer_next_def expect_def)
qed

lemma parse_let_neither:
  assumes "toks st = first # name # middle # rest" and "tok_t name = TOK_SYM"
    and "tok_t middle \<noteq> TOK_EQ" and "tok_t middle \<noteq> TOK_COLON"
  shows "parse_let n ast mut st
         = Inl (log_source_err msg_expected_eq_or_colon (memory st) (src_base st)
                  (tok_pos middle) (stdio st))"
  using assms by (simp add: parse_let_def lexer_next_def expect_def)


lemma parse_let_shape:
  assumes "parse_let n ast mut st = Inr (s, st')"
  shows "\<exists>p nm ty val. s = STMT_LET p nm ty val mut \<and> \<not> (ty = None \<and> val = None)"
proof -
  obtain first_tok st1 where n1: "lexer_next st = (first_tok, st1)" by (cases "lexer_next st")
  from assms n1 obtain var_name st2 where
    e: "expect TOK_SYM ''expected variable name'' st1 = Inr (var_name, st2)"
    by (auto simp: parse_let_def split: sum.splits)
  obtain middle_tok st3 where n3: "lexer_next st2 = (middle_tok, st3)" by (cases "lexer_next st2")
  show ?thesis
  proof (cases "tok_t middle_tok = TOK_EQ")
    case True
    with assms n1 e n3 show ?thesis
      by (auto simp: parse_let_def split: sum.splits)
  next
    case ne: False
    show ?thesis
    proof (cases "tok_t middle_tok = TOK_COLON")
      case False
      with assms n1 e n3 ne show ?thesis by (simp add: parse_let_def)
    next
      case True
      with assms n1 e n3 ne obtain ty st4 where pt: "parse_type st3 = Inr (ty, st4)"
        by (auto simp: parse_let_def split: sum.splits)
      obtain equal_tok st5 where n5: "lexer_next st4 = (equal_tok, st5)"
        by (cases "lexer_next st4")
      from assms n1 e n3 ne True pt n5 show ?thesis
        by (auto simp: parse_let_def split: sum.splits if_splits)
    qed
  qed
qed

text \<open>
  Claim C8, amended. After \<^verbatim>\<open>let\<close> or \<^verbatim>\<open>mut\<close> and a name, \<^verbatim>\<open>parse_let\<close> accepts an initializer
  only (\<^verbatim>\<open>= expr\<close>, no declared type recorded), a declared type only (\<^verbatim>\<open>: type\<close>, no initializer
  recorded) and both (\<^verbatim>\<open>: type = expr\<close>), each ended by a line end, and records the span, the
  name, the two optional parts and the mutability flag it was called with. With neither
  (the token after the name is not \<^verbatim>\<open>=\<close> and not \<^verbatim>\<open>:\<close>) it stops with the diagnostic
  \<^verbatim>\<open>expected '=' or ':'\<close>; so in every statement it returns, the declared type or the
  initializer is present.
\<close>

theorem parse_let_forms:
  "(toks st = first # name # middle # rest \<and> tok_t name = TOK_SYM \<and> tok_t middle = TOK_EQ
      \<and> parse_expr n ast (st\<lparr>toks := rest\<rparr>) = Inr (e, stx)
      \<and> toks stx = nl # rest' \<and> tok_t nl = TOK_NEWLINE
    \<longrightarrow> parse_let n ast mut st
          = Inr (STMT_LET (combine_pos (tok_pos first) (tok_pos nl)) (tok_pos name)
                   None (Some e) mut, stx\<lparr>toks := rest'\<rparr>))
   \<and> (toks st = first # name # middle # ty # nl # rest' \<and> tok_t name = TOK_SYM
      \<and> tok_t middle = TOK_COLON \<and> type_of_tok (tok_t ty) = Some T \<and> tok_t nl = TOK_NEWLINE
    \<longrightarrow> parse_let n ast mut st
          = Inr (STMT_LET (combine_pos (tok_pos first) (tok_pos nl)) (tok_pos name)
                   (Some T) None mut, st\<lparr>toks := rest'\<rparr>))
   \<and> (toks st = first # name # middle # ty # eq # rest \<and> tok_t name = TOK_SYM
      \<and> tok_t middle = TOK_COLON \<and> type_of_tok (tok_t ty) = Some T \<and> tok_t eq = TOK_EQ
      \<and> parse_expr n ast (st\<lparr>toks := rest\<rparr>) = Inr (e, stx)
      \<and> toks stx = nl # rest' \<and> tok_t nl = TOK_NEWLINE
    \<longrightarrow> parse_let n ast mut st
          = Inr (STMT_LET (combine_pos (tok_pos first) (tok_pos nl)) (tok_pos name)
                   (Some T) (Some e) mut, stx\<lparr>toks := rest'\<rparr>))
   \<and> (toks st = first # name # middle # rest \<and> tok_t name = TOK_SYM
      \<and> tok_t middle \<noteq> TOK_EQ \<and> tok_t middle \<noteq> TOK_COLON
    \<longrightarrow> parse_let n ast mut st
          = Inl (log_source_err msg_expected_eq_or_colon (memory st) (src_base st)
                   (tok_pos middle) (stdio st)))
   \<and> (parse_let n ast mut st = Inr (s, st')
    \<longrightarrow> (\<exists>p nm ty val. s = STMT_LET p nm ty val mut \<and> (ty \<noteq> None \<or> val \<noteq> None)))"
proof (intro conjI impI)
  assume "toks st = first # name # middle # rest \<and> tok_t name = TOK_SYM \<and> tok_t middle = TOK_EQ
      \<and> parse_expr n ast (st\<lparr>toks := rest\<rparr>) = Inr (e, stx)
      \<and> toks stx = nl # rest' \<and> tok_t nl = TOK_NEWLINE"
  then have "toks st = first # name # middle # rest" and "tok_t name = TOK_SYM"
    and "tok_t middle = TOK_EQ" and "parse_expr n ast (st\<lparr>toks := rest\<rparr>) = Inr (e, stx)"
    and "toks stx = nl # rest'" and "tok_t nl = TOK_NEWLINE"
    by blast+
  then show "parse_let n ast mut st
          = Inr (STMT_LET (combine_pos (tok_pos first) (tok_pos nl)) (tok_pos name)
                   None (Some e) mut, stx\<lparr>toks := rest'\<rparr>)"
    by (rule parse_let_init_only)
next
  assume "toks st = first # name # middle # ty # nl # rest' \<and> tok_t name = TOK_SYM
      \<and> tok_t middle = TOK_COLON \<and> type_of_tok (tok_t ty) = Some T \<and> tok_t nl = TOK_NEWLINE"
  then have "toks st = first # name # middle # ty # nl # rest'" and "tok_t name = TOK_SYM"
    and "tok_t middle = TOK_COLON" and "type_of_tok (tok_t ty) = Some T"
    and "tok_t nl = TOK_NEWLINE"
    by blast+
  then show "parse_let n ast mut st
          = Inr (STMT_LET (combine_pos (tok_pos first) (tok_pos nl)) (tok_pos name)
                   (Some T) None mut, st\<lparr>toks := rest'\<rparr>)"
    by (rule parse_let_type_only)
next
  assume "toks st = first # name # middle # ty # eq # rest \<and> tok_t name = TOK_SYM
      \<and> tok_t middle = TOK_COLON \<and> type_of_tok (tok_t ty) = Some T \<and> tok_t eq = TOK_EQ
      \<and> parse_expr n ast (st\<lparr>toks := rest\<rparr>) = Inr (e, stx)
      \<and> toks stx = nl # rest' \<and> tok_t nl = TOK_NEWLINE"
  then have "toks st = first # name # middle # ty # eq # rest" and "tok_t name = TOK_SYM"
    and "tok_t middle = TOK_COLON" and "type_of_tok (tok_t ty) = Some T"
    and "tok_t eq = TOK_EQ" and "parse_expr n ast (st\<lparr>toks := rest\<rparr>) = Inr (e, stx)"
    and "toks stx = nl # rest'" and "tok_t nl = TOK_NEWLINE"
    by blast+
  then show "parse_let n ast mut st
          = Inr (STMT_LET (combine_pos (tok_pos first) (tok_pos nl)) (tok_pos name)
                   (Some T) (Some e) mut, stx\<lparr>toks := rest'\<rparr>)"
    by (rule parse_let_type_and_init)
next
  assume "toks st = first # name # middle # rest \<and> tok_t name = TOK_SYM
      \<and> tok_t middle \<noteq> TOK_EQ \<and> tok_t middle \<noteq> TOK_COLON"
  then have "toks st = first # name # middle # rest" and "tok_t name = TOK_SYM"
    and "tok_t middle \<noteq> TOK_EQ" and "tok_t middle \<noteq> TOK_COLON"
    by blast+
  then show "parse_let n ast mut st
          = Inl (log_source_err msg_expected_eq_or_colon (memory st) (src_base st)
                   (tok_pos middle) (stdio st))"
    by (rule parse_let_neither)
next
  assume "parse_let n ast mut st = Inr (s, st')"
  then have "\<exists>p nm ty val. s = STMT_LET p nm ty val mut \<and> \<not> (ty = None \<and> val = None)"
    by (rule parse_let_shape)
  then show "\<exists>p nm ty val. s = STMT_LET p nm ty val mut \<and> (ty \<noteq> None \<or> val \<noteq> None)"
    by simp
qed

text \<open>
  Claim C8 as stated fails: the statement \<^verbatim>\<open>let x\<close>, with neither a declared type nor an
  initializer, is not accepted. \<^verbatim>\<open>parse_let\<close> stops the process with a diagnostic.
\<close>

theorem parse_let_bare_rejected_counterexample:
  "parse_let 9 ex_ast 0 (sample_state bare_src 0 (drop 4 bare_toks))
   = Inl (Exited EXIT_FAILURE
            \<lparr>err_stream = RED @ ''error'' @ RESET @ '': '' @ msg_expected_eq_or_colon @ [newline]
                @ '' | '' @ WHITE_UNDERLINE @ ''let x'' @ RESET @ [newline],
             artifact_stream = []\<rparr>)"
  by code_simp

theorem parse_let_forms_witness:
  "parse_let 9 ex_ast 0 (ex_state 0 (drop 10 ex_toks))
     = Inr (STMT_LET \<lparr>pos_start = 4118, pos_sz = 18\<rparr> \<lparr>pos_start = 4122, pos_sz = 1\<rparr> None
              (Some (EXPR_BINOP \<lparr>pos_start = 4126, pos_sz = 9\<rparr> BINOP_ADD
                       (EXPR_VAR \<lparr>pos_start = 4126, pos_sz = 1\<rparr>)
                       (EXPR_BINOP \<lparr>pos_start = 4130, pos_sz = 5\<rparr> BINOP_MUL
                          (EXPR_VAR \<lparr>pos_start = 4130, pos_sz = 1\<rparr>)
                          (EXPR_VAR \<lparr>pos_start = 4134, pos_sz = 1\<rparr>)))) 0,
            ex_state 0 (drop 19 ex_toks))
   \<and> parse_let 9 ex_ast 1 (ex_state 0 (drop 19 ex_toks))
     = Inr (STMT_LET \<lparr>pos_start = 4136, pos_sz = 11\<rparr> \<lparr>pos_start = 4140, pos_sz = 1\<rparr>
              (Some I64_const) None 1,
            ex_state 0 (drop 24 ex_toks))
   \<and> parse_let 9 ex_ast 0 (ex_state 0 (drop 24 ex_toks))
     = Inr (STMT_LET \<lparr>pos_start = 4147, pos_sz = 18\<rparr> \<lparr>pos_start = 4151, pos_sz = 1\<rparr>
              (Some U8_const)
              (Some (EXPR_INT \<lparr>pos_start = 4159, pos_sz = 5\<rparr> 3 INTLIT_U8)) 0,
            ex_state 0 (drop 31 ex_toks))
   \<and> parse_let 9 ex_ast 0 (sample_state bare_src 0 (drop 4 bare_toks))
     = Inl (log_source_err msg_expected_eq_or_colon (sample_buf bare_src) 0
              \<lparr>pos_start = 4107, pos_sz = 1\<rparr> ex_io)"
proof -
  let ?E = "EXPR_BINOP \<lparr>pos_start = 4126, pos_sz = 9\<rparr> BINOP_ADD
              (EXPR_VAR \<lparr>pos_start = 4126, pos_sz = 1\<rparr>)
              (EXPR_BINOP \<lparr>pos_start = 4130, pos_sz = 5\<rparr> BINOP_MUL
                 (EXPR_VAR \<lparr>pos_start = 4130, pos_sz = 1\<rparr>)
                 (EXPR_VAR \<lparr>pos_start = 4134, pos_sz = 1\<rparr>))"
  let ?L = "EXPR_INT \<lparr>pos_start = 4159, pos_sz = 5\<rparr> 3 INTLIT_U8"
  have e1: "parse_expr 9 ex_ast ((ex_state 0 (drop 10 ex_toks))\<lparr>toks := drop 13 ex_toks\<rparr>)
            = Inr (?E, ex_state 0 (drop 18 ex_toks))"
    by code_simp
  have h1: "toks (ex_state 0 (drop 10 ex_toks))
              = ex_toks ! 10 # ex_toks ! 11 # ex_toks ! 12 # drop 13 ex_toks
      \<and> tok_t (ex_toks ! 11) = TOK_SYM \<and> tok_t (ex_toks ! 12) = TOK_EQ
      \<and> parse_expr 9 ex_ast ((ex_state 0 (drop 10 ex_toks))\<lparr>toks := drop 13 ex_toks\<rparr>)
          = Inr (?E, ex_state 0 (drop 18 ex_toks))
      \<and> toks (ex_state 0 (drop 18 ex_toks)) = ex_toks ! 18 # drop 19 ex_toks
      \<and> tok_t (ex_toks ! 18) = TOK_NEWLINE"
    using e1 by (simp add: ex_state_def sample_state_def ex_toks_def tk_def)
  have r1: "parse_let 9 ex_ast 0 (ex_state 0 (drop 10 ex_toks))
     = Inr (STMT_LET \<lparr>pos_start = 4118, pos_sz = 18\<rparr> \<lparr>pos_start = 4122, pos_sz = 1\<rparr> None
              (Some ?E) 0, ex_state 0 (drop 19 ex_toks))"
    using parse_let_forms [THEN conjunct1, THEN mp, OF h1, of 0]
    by (simp add: ex_state_def sample_state_def ex_toks_def tk_def combine_pos_def)
  have h2: "toks (ex_state 0 (drop 19 ex_toks))
              = ex_toks ! 19 # ex_toks ! 20 # ex_toks ! 21 # ex_toks ! 22 # ex_toks ! 23
                  # drop 24 ex_toks
      \<and> tok_t (ex_toks ! 20) = TOK_SYM \<and> tok_t (ex_toks ! 21) = TOK_COLON
      \<and> type_of_tok (tok_t (ex_toks ! 22)) = Some I64_const
      \<and> tok_t (ex_toks ! 23) = TOK_NEWLINE"
    by (simp add: ex_state_def sample_state_def ex_toks_def tk_def)
  have r2: "parse_let 9 ex_ast 1 (ex_state 0 (drop 19 ex_toks))
     = Inr (STMT_LET \<lparr>pos_start = 4136, pos_sz = 11\<rparr> \<lparr>pos_start = 4140, pos_sz = 1\<rparr>
              (Some I64_const) None 1, ex_state 0 (drop 24 ex_toks))"
    using parse_let_forms [THEN conjunct2, THEN conjunct1, THEN mp, OF h2, of 9 ex_ast 1]
    by (simp add: ex_state_def sample_state_def ex_toks_def tk_def combine_pos_def)
  have e3: "parse_expr 9 ex_ast ((ex_state 0 (drop 24 ex_toks))\<lparr>toks := drop 29 ex_toks\<rparr>)
            = Inr (?L, ex_state 0 (drop 30 ex_toks))"
    by code_simp
  have h3: "toks (ex_state 0 (drop 24 ex_toks))
              = ex_toks ! 24 # ex_toks ! 25 # ex_toks ! 26 # ex_toks ! 27 # ex_toks ! 28
                  # drop 29 ex_toks
      \<and> tok_t (ex_toks ! 25) = TOK_SYM \<and> tok_t (ex_toks ! 26) = TOK_COLON
      \<and> type_of_tok (tok_t (ex_toks ! 27)) = Some U8_const
      \<and> tok_t (ex_toks ! 28) = TOK_EQ
      \<and> parse_expr 9 ex_ast ((ex_state 0 (drop 24 ex_toks))\<lparr>toks := drop 29 ex_toks\<rparr>)
          = Inr (?L, ex_state 0 (drop 30 ex_toks))
      \<and> toks (ex_state 0 (drop 30 ex_toks)) = ex_toks ! 30 # drop 31 ex_toks
      \<and> tok_t (ex_toks ! 30) = TOK_NEWLINE"
    using e3 by (simp add: ex_state_def sample_state_def ex_toks_def tk_def)
  have r3: "parse_let 9 ex_ast 0 (ex_state 0 (drop 24 ex_toks))
     = Inr (STMT_LET \<lparr>pos_start = 4147, pos_sz = 18\<rparr> \<lparr>pos_start = 4151, pos_sz = 1\<rparr>
              (Some U8_const) (Some ?L) 0, ex_state 0 (drop 31 ex_toks))"
    using parse_let_forms [THEN conjunct2, THEN conjunct2, THEN conjunct1, THEN mp, OF h3, of 0]
    by (simp add: ex_state_def sample_state_def ex_toks_def tk_def combine_pos_def)
  have h4: "toks (sample_state bare_src 0 (drop 4 bare_toks))
              = bare_toks ! 4 # bare_toks ! 5 # bare_toks ! 6 # drop 7 bare_toks
      \<and> tok_t (bare_toks ! 5) = TOK_SYM
      \<and> tok_t (bare_toks ! 6) \<noteq> TOK_EQ \<and> tok_t (bare_toks ! 6) \<noteq> TOK_COLON"
    by (simp add: sample_state_def bare_toks_def tk_def)
  have r4: "parse_let 9 ex_ast 0 (sample_state bare_src 0 (drop 4 bare_toks))
     = Inl (log_source_err msg_expected_eq_or_colon (sample_buf bare_src) 0
              \<lparr>pos_start = 4107, pos_sz = 1\<rparr> ex_io)"
    using parse_let_forms [THEN conjunct2, THEN conjunct2, THEN conjunct2, THEN conjunct1,
        THEN mp, OF h4, of 9 ex_ast 0]
    by (simp add: sample_state_def bare_toks_def tk_def)
  from r1 r2 r3 r4 show ?thesis by simp
qed

section \<open>Diagnostics\<close>

lemma peek_byte_at:
  assumes "i < length (buf_bytes m)"
  shows "peek_byte m (buf_start m + int i) = Some (buf_bytes m ! i)"
  using assms by (simp add: peek_byte_def)

lemma peek_byte_before:
  assumes "p < buf_start m"
  shows "peek_byte m p = None"
  using assms by (simp add: peek_byte_def)

lemma peek_byte_after:
  assumes "buf_start m + int (length (buf_bytes m)) \<le> p"
  shows "peek_byte m p = None"
  using assms by (simp add: peek_byte_def)

text \<open>
  The first loop, from a position on the line \<open>line\<close> that follows \<open>pre\<close>: it stops at the byte
  before the line when \<open>pre\<close> ends with a line end, or when the line is the first one and
  \<open>base\<close> is the start of the buffer.
\<close>

lemma scan_back_line:
  assumes b: "buf_bytes m = pre @ line @ rest" and nl: "newline \<notin> set line"
    and k: "k \<le> length line"
    and base: "(pre = [] \<and> base = buf_start m) \<or> (pre \<noteq> [] \<and> last pre = newline \<and> base \<le> buf_start m)"
  shows "scan_back m base (buf_start m + int (length pre) + int k)
         = Inr (buf_start m + int (length pre) - 1)"
  using k
proof (induction k)
  case 0
  from base show ?case
  proof
    assume "pre = [] \<and> base = buf_start m"
    then show ?thesis by simp
  next
    assume a: "pre \<noteq> [] \<and> last pre = newline \<and> base \<le> buf_start m"
    then have l: "0 < length pre" by simp
    have i: "length pre - 1 < length (buf_bytes m)" using a b by (cases pre) simp_all
    have "pre ! (length pre - 1) = newline"
      using a last_conv_nth [of pre] by simp
    then have "buf_bytes m ! (length pre - 1) = newline"
      using b l by (simp add: nth_append)
    with peek_byte_at [OF i] have p: "peek_byte m (buf_start m + int (length pre) - 1) = Some newline"
      using l by (simp add: of_nat_diff algebra_simps)
    have "0 < int (length pre)" using l by (simp only: of_nat_0_less_iff)
    with a have "buf_start m + int (length pre) \<noteq> base" by linarith
    with p show ?thesis by simp
  qed
next
  case (Suc j)
  then have j: "j < length line" and j': "j \<le> length line" by simp_all
  have i: "length pre + j < length (buf_bytes m)" using b j by simp
  have "buf_bytes m ! (length pre + j) = line ! j" using b j by (simp add: nth_append)
  moreover have "line ! j \<noteq> newline" using nl j by (metis nth_mem)
  ultimately have p: "peek_byte m (buf_start m + int (length pre) + int j) = Some (line ! j)"
    and ne: "line ! j \<noteq> newline"
    using peek_byte_at [OF i] by (simp_all add: algebra_simps)
  have "buf_start m + int (length pre) + int (Suc j) \<noteq> base" using base by auto
  then have "scan_back m base (buf_start m + int (length pre) + int (Suc j))
             = scan_back m base (buf_start m + int (length pre) + int j)"
    using p ne by (subst scan_back.simps) (simp add: algebra_simps)
  with Suc.IH [OF j'] show ?case by simp
qed

text \<open>
  On the first line, with \<open>base\<close> below the buffer (the null pointer, say), the first loop
  reads the byte before the buffer.
\<close>

lemma scan_back_first_line:
  assumes b: "buf_bytes m = line @ rest" and nl: "newline \<notin> set line"
    and k: "k \<le> length line" and base: "base < buf_start m"
  shows "scan_back m base (buf_start m + int k) = Inl OutOfBounds"
  using k
proof (induction k)
  case 0
  have "peek_byte m (buf_start m - 1) = None" by (rule peek_byte_before) simp
  moreover have "buf_start m \<noteq> base" using base by simp
  ultimately show ?case by simp
next
  case (Suc j)
  then have j: "j < length line" and j': "j \<le> length line" by simp_all
  have i: "j < length (buf_bytes m)" using b j by simp
  have "buf_bytes m ! j = line ! j" using b j by (simp add: nth_append)
  moreover have "line ! j \<noteq> newline" using nl j by (metis nth_mem)
  ultimately have p: "peek_byte m (buf_start m + int j) = Some (line ! j)"
    and ne: "line ! j \<noteq> newline"
    using peek_byte_at [OF i] by simp_all
  have "buf_start m + int (Suc j) \<noteq> base" using base by simp
  then have "scan_back m base (buf_start m + int (Suc j)) = scan_back m base (buf_start m + int j)"
    using p ne by (subst scan_back.simps) (simp add: algebra_simps)
  with Suc.IH [OF j'] show ?case by simp
qed

text \<open>The second loop prints a line up to its line end, and leaves the buffer without one.\<close>

lemma scan_line_line:
  assumes "buf_bytes m = pre @ line @ newline # post" and "newline \<notin> set line"
  shows "scan_line m (buf_start m + int (length pre)) = Inr line"
  using assms
proof (induction line arbitrary: pre)
  case Nil
  then have "length pre < length (buf_bytes m)" and "buf_bytes m ! length pre = newline"
    by (simp_all add: nth_append)
  with peek_byte_at [of "length pre" m] show ?case by simp
next
  case (Cons c cs)
  then have i: "length pre < length (buf_bytes m)" and c: "buf_bytes m ! length pre = c"
    and ne: "c \<noteq> newline"
    by (auto simp: nth_append)
  from Cons.prems have "buf_bytes m = (pre @ [c]) @ cs @ newline # post" and "newline \<notin> set cs"
    by simp_all
  then have "scan_line m (buf_start m + int (length (pre @ [c]))) = Inr cs"
    by (rule Cons.IH)
  then have "scan_line m (buf_start m + int (length pre) + 1) = Inr cs"
    by (simp add: algebra_simps)
  with peek_byte_at [OF i] c ne show ?case
    by (subst scan_line.simps) simp
qed

lemma scan_line_open:
  assumes "buf_bytes m = pre @ line" and "newline \<notin> set line"
  shows "scan_line m (buf_start m + int (length pre)) = Inl OutOfBounds"
  using assms
proof (induction line arbitrary: pre)
  case Nil
  then have "peek_byte m (buf_start m + int (length pre)) = None"
    by (intro peek_byte_after) simp
  then show ?case by simp
next
  case (Cons c cs)
  then have i: "length pre < length (buf_bytes m)" and c: "buf_bytes m ! length pre = c"
    and ne: "c \<noteq> newline"
    by (auto simp: nth_append)
  from Cons.prems have "buf_bytes m = (pre @ [c]) @ cs" and "newline \<notin> set cs"
    by simp_all
  then have "scan_line m (buf_start m + int (length (pre @ [c]))) = Inl OutOfBounds"
    by (rule Cons.IH)
  then have "scan_line m (buf_start m + int (length pre) + 1) = Inl OutOfBounds"
    by (simp add: algebra_simps)
  with peek_byte_at [OF i] c ne show ?case
    by (subst scan_line.simps) simp
qed

text \<open>
  With the start of the buffer as \<open>base\<close>, a diagnostic for a position on a line that has
  its line end prints the message and that line on the error stream, leaves the artifact
  stream as it is and exits with \<^verbatim>\<open>EXIT_FAILURE\<close>.
\<close>

lemma log_source_err_renders:
  assumes b: "buf_bytes m = pre @ line @ newline # post" and nl: "newline \<notin> set line"
    and k: "pos_start pos = buf_start m + int (length pre) + int k" "k \<le> length line"
    and base: "(pre = [] \<and> base = buf_start m) \<or> (pre \<noteq> [] \<and> last pre = newline \<and> base \<le> buf_start m)"
  shows "log_source_err msg m base pos out
         = Exited EXIT_FAILURE
             (out\<lparr>err_stream := err_stream out @ RED @ ''error'' @ RESET @ '': '' @ msg
                     @ [newline] @ '' | '' @ WHITE_UNDERLINE @ line @ RESET @ [newline]\<rparr>)"
proof -
  have "scan_back m base (pos_start pos) = Inr (buf_start m + int (length pre) - 1)"
    unfolding k(1) using b nl k(2) base by (rule scan_back_line)
  moreover have "scan_line m (buf_start m + int (length pre)) = Inr line"
    using b nl by (rule scan_line_line)
  ultimately show ?thesis by (simp add: log_source_err_def)
qed

lemma log_source_err_first_line:
  assumes "buf_bytes m = line @ rest" and "newline \<notin> set line"
    and "pos_start pos = buf_start m + int k" and "k \<le> length line" and "base < buf_start m"
  shows "log_source_err msg m base pos out = OutOfBounds"
proof -
  have "scan_back m base (pos_start pos) = Inl OutOfBounds"
    unfolding assms(3) using assms(1,2,4,5) by (rule scan_back_first_line)
  then show ?thesis by (simp add: log_source_err_def)
qed

lemma log_source_err_last_line:
  assumes b: "buf_bytes m = pre @ line" and nl: "newline \<notin> set line"
    and k: "pos_start pos = buf_start m + int (length pre) + int k" "k \<le> length line"
    and base: "(pre = [] \<and> base = buf_start m) \<or> (pre \<noteq> [] \<and> last pre = newline \<and> base \<le> buf_start m)"
  shows "log_source_err msg m base pos out = OutOfBounds"
proof -
  have "buf_bytes m = pre @ line @ []" using b by simp
  then have "scan_back m base (pos_start pos) = Inr (buf_start m + int (length pre) - 1)"
    unfolding k(1) using nl k(2) base by (rule scan_back_line)
  moreover have "scan_line m (buf_start m + int (length pre)) = Inl OutOfBounds"
    using b nl by (rule scan_line_open)
  ultimately show ?thesis by (simp add: log_source_err_def)
qed

text \<open>
  A diagnostic for the second line of a text is printed as the claim says, also while
  \<^verbatim>\<open>src_base\<close> is still the null pointer: the first loop stops at the line end before it.
\<close>

lemma parse_ast_second_line_diagnostic:
  "parse_ast 9 4096 (sample_state bare_src 0 bare_toks)
   = Inl (Exited EXIT_FAILURE
            \<lparr>err_stream = RED @ ''error'' @ RESET @ '': '' @ msg_expected_eq_or_colon @ [newline]
                @ '' | '' @ WHITE_UNDERLINE @ ''let x'' @ RESET @ [newline],
             artifact_stream = []\<rparr>)"
  by code_simp

text \<open>
  Claim C6 does not hold of the code. \<^verbatim>\<open>parse_ast\<close> assigns the global \<^verbatim>\<open>src_base\<close> only after
  its loop, so while the parser runs \<^verbatim>\<open>log_source_err\<close> is given the null pointer as the start
  of the text: for an error on the first line (\<^verbatim>\<open>k() {let x\<close>) the first loop of
  \<^verbatim>\<open>log_source_err\<close> finds neither \<open>base\<close> nor a line end and reads the byte before the buffer.
  The second loop stops only at a line end: for an error on a last line without one
  (\<^verbatim>\<open>h() {\<close>, then a line that is just \<^verbatim>\<open>)\<close>) it reads past the terminating NUL, whatever
  \<^verbatim>\<open>src_base\<close> is. Neither run prints the source line and exits.
\<close>

theorem parse_ast_diagnostic_out_of_bounds:
  "parse_ast 9 4096 (sample_state first_src 0 first_toks) = Inl OutOfBounds
   \<and> parse_ast 9 4096 (sample_state open_src 0 open_toks) = Inl OutOfBounds
   \<and> parse_ast 9 4096 (sample_state open_src 4096 open_toks) = Inl OutOfBounds"
  by code_simp

end
